theory Spec2Isabelle
  imports Complex_Main "HOL-Library.Multiset" "HOL-Library.Log_Nat"
begin

section \<open>Errors and arrays\<close>

text \<open>
  The two functions verified here are \<^verbatim>\<open>netflix\<close> and \<^verbatim>\<open>create_folds\<close> of
  \<^verbatim>\<open>submissions/submission_netflix.py\<close>. Both are short compositions of calls into
  numpy, pandas and scikit-learn. Every exception those calls can raise is a value of
  the type \<open>error\<close>; a result is \<open>Inr\<close>, a raised exception is \<open>Inl\<close>.
  A \<^verbatim>\<open>float64\<close> is idealised as a \<open>real\<close>: the algebra of the claims is exact
  algebra, rounding is not modelled.
\<close>

datatype error = IndexError | ValueError | OverflowError

text \<open>
  A one-dimensional array is a \<open>real list\<close>. A two-dimensional array carries its
  shape, because an array with no rows still has a number of columns
  (\<^verbatim>\<open>np.stack(ps).T\<close> of \<open>m\<close> empty vectors has shape \<open>(0, m)\<close>).
\<close>

datatype ndarray2 = Array2 (shape0: nat) (shape1: nat) (rows: "real list list")

definition wf2 :: "ndarray2 \<Rightarrow> bool" where
  "wf2 A \<longleftrightarrow> length (rows A) = shape0 A \<and> list_all (\<lambda>r. length r = shape1 A) (rows A)"

definition at2 :: "ndarray2 \<Rightarrow> nat \<Rightarrow> nat \<Rightarrow> real" where
  "at2 A i j = rows A ! i ! j"

text \<open>
  \<^verbatim>\<open>np.stack(arrays)\<close>: raises \<^verbatim>\<open>ValueError\<close> on an empty sequence
  ("need at least one array to stack") and when the arrays do not all have the same
  shape ("all input arrays must have the same shape"); otherwise the arrays are the rows.
\<close>

definition np_stack :: "real list list \<Rightarrow> error + ndarray2" where
  "np_stack ps =
     (case ps of
        [] \<Rightarrow> Inl ValueError
      | p0 # _ \<Rightarrow>
          if list_all (\<lambda>p. length p = length p0) ps
          then Inr (Array2 (length ps) (length p0) ps)
          else Inl ValueError)"

text \<open>\<^verbatim>\<open>a.T\<close>\<close>

definition np_T :: "ndarray2 \<Rightarrow> ndarray2" where
  "np_T A = Array2 (shape1 A) (shape0 A)
              (map (\<lambda>j. map (\<lambda>r. r ! j) (rows A)) [0..<shape1 A])"

text \<open>\<^verbatim>\<open>a ** 2\<close>, elementwise\<close>

definition np_square :: "ndarray2 \<Rightarrow> ndarray2" where
  "np_square A = Array2 (shape0 A) (shape1 A) (map (map (\<lambda>x. x\<^sup>2)) (rows A))"

text \<open>\<^verbatim>\<open>a.sum(axis=0)\<close>: one sum per column, over the rows\<close>

definition sum_axis0 :: "ndarray2 \<Rightarrow> real list" where
  "sum_axis0 A = map (\<lambda>j. sum_list (map (\<lambda>r. r ! j) (rows A))) [0..<shape1 A]"

text \<open>
  Elementwise binary operation on one-dimensional arrays with numpy's broadcasting:
  equal lengths combine pointwise, a length-1 operand is stretched, anything else is
  \<^verbatim>\<open>ValueError\<close> ("operands could not be broadcast together").
\<close>

definition broadcast1 :: "(real \<Rightarrow> real \<Rightarrow> real) \<Rightarrow> real list \<Rightarrow> real list \<Rightarrow> error + real list" where
  "broadcast1 f u v =
     (if length u = length v then Inr (map2 f u v)
      else if length u = 1 then Inr (map (f (hd u)) v)
      else if length v = 1 then Inr (map (\<lambda>x. f x (hd v)) u)
      else Inl ValueError)"

text \<open>The broadcast length of one axis: equal, or one of the two is 1.\<close>

definition broadcast_dim :: "nat \<Rightarrow> nat \<Rightarrow> nat option" where
  "broadcast_dim a b =
     (if a = b then Some a else if a = 1 then Some b else if b = 1 then Some a else None)"

text \<open>\<^verbatim>\<open>a + b\<close> on two-dimensional arrays, with broadcasting on each axis\<close>

definition np_add2 :: "ndarray2 \<Rightarrow> ndarray2 \<Rightarrow> error + ndarray2" where
  "np_add2 A B =
     (case (broadcast_dim (shape0 A) (shape0 B), broadcast_dim (shape1 A) (shape1 B)) of
        (Some r, Some c) \<Rightarrow>
          Inr (Array2 r c
            (map (\<lambda>i. map (\<lambda>j.
                 at2 A (if shape0 A = 1 then 0 else i) (if shape1 A = 1 then 0 else j)
               + at2 B (if shape0 B = 1 then 0 else i) (if shape1 B = 1 then 0 else j))
               [0..<c]) [0..<r]))
      | _ \<Rightarrow> Inl ValueError)"

text \<open>\<^verbatim>\<open>np.eye(m)\<close>\<close>

definition np_eye :: "nat \<Rightarrow> ndarray2" where
  "np_eye m = Array2 m m (map (\<lambda>i. map (\<lambda>j. if i = j then 1 else 0) [0..<m]) [0..<m])"

text \<open>\<^verbatim>\<open>c * a\<close> for a scalar \<open>c\<close>\<close>

definition scale2 :: "real \<Rightarrow> ndarray2 \<Rightarrow> ndarray2" where
  "scale2 c A = Array2 (shape0 A) (shape1 A) (map (map (\<lambda>x. c * x)) (rows A))"

text \<open>
  \<^verbatim>\<open>a.dot(b)\<close> for two-dimensional \<open>a\<close>: the inner dimensions must agree, otherwise
  \<^verbatim>\<open>ValueError\<close> ("shapes not aligned"). \<open>matmul\<close> is the product itself.
\<close>

definition matmul :: "ndarray2 \<Rightarrow> ndarray2 \<Rightarrow> ndarray2" where
  "matmul A B = Array2 (shape0 A) (shape1 B)
     (map (\<lambda>r. map (\<lambda>j. sum_list (map2 (*) r (map (\<lambda>s. s ! j) (rows B)))) [0..<shape1 B]) (rows A))"

definition dot22 :: "ndarray2 \<Rightarrow> ndarray2 \<Rightarrow> error + ndarray2" where
  "dot22 A B = (if shape1 A = shape0 B then Inr (matmul A B) else Inl ValueError)"

definition dot21 :: "ndarray2 \<Rightarrow> real list \<Rightarrow> error + real list" where
  "dot21 A v =
     (if shape1 A = length v then Inr (map (\<lambda>r. sum_list (map2 (*) r v)) (rows A))
      else Inl ValueError)"

section \<open>The weight solver \<^verbatim>\<open>netflix\<close>\<close>

text \<open>
  \<^verbatim>\<open>
  def netflix(es, ps, e0, l=0.0001):
      m = len(es)
      n = len(ps[0])
      X = np.stack(ps).T
      pTy = 0.5 * (n * e0 ** 2 + (X ** 2).sum(axis=0) - n * np.array(es) ** 2)
      w = np.linalg.pinv(X.T.dot(X) + l * n * np.eye(m)).dot(pTy)
      return X.dot(w), w
  \<close>
  \<^verbatim>\<open>np.linalg.pinv\<close> is numpy's; it is the parameter \<open>pinv\<close> of the model, and what is
  known of it is its contract \<open>is_pinv\<close> below. \<^verbatim>\<open>ps[0]\<close> on an empty list raises
  \<^verbatim>\<open>IndexError\<close>.
\<close>

definition netflix ::
  "(ndarray2 \<Rightarrow> ndarray2) \<Rightarrow> real list \<Rightarrow> real list list \<Rightarrow> real \<Rightarrow> real \<Rightarrow> error + (real list \<times> real list)" where
  "netflix pinv es ps e0 l =
     (let m = length es in
      if ps = [] then Inl IndexError else
     (let n = length (hd ps) in
      case np_stack ps of
        Inl e \<Rightarrow> Inl e
      | Inr S \<Rightarrow>
     (let X = np_T S in
      case broadcast1 (-) (map (\<lambda>s. real n * e0\<^sup>2 + s) (sum_axis0 (np_square X)))
                          (map (\<lambda>e. real n * e\<^sup>2) es) of
        Inl e \<Rightarrow> Inl e
      | Inr d \<Rightarrow>
     (let pTy = map (\<lambda>x. 0.5 * x) d in
      case dot22 (np_T X) X of
        Inl e \<Rightarrow> Inl e
      | Inr G \<Rightarrow>
     (case np_add2 G (scale2 (l * real n) (np_eye m)) of
        Inl e \<Rightarrow> Inl e
      | Inr A \<Rightarrow>
     (case dot21 (pinv A) pTy of
        Inl e \<Rightarrow> Inl e
      | Inr w \<Rightarrow>
     (case dot21 X w of
        Inl e \<Rightarrow> Inl e
      | Inr b \<Rightarrow> Inr (b, w))))))))"

text \<open>
  The contract of \<^verbatim>\<open>np.linalg.pinv\<close>: the result \<open>G\<close> has the transposed shape of \<open>A\<close>
  (\<open>pinv_shape\<close>) and is the Moore-Penrose inverse of \<open>A\<close> (\<open>is_pinv\<close>, the four
  Penrose equations).
\<close>

definition pinv_shape :: "ndarray2 \<Rightarrow> ndarray2 \<Rightarrow> bool" where
  "pinv_shape A G \<longleftrightarrow> wf2 G \<and> shape0 G = shape1 A \<and> shape1 G = shape0 A"

definition is_pinv :: "ndarray2 \<Rightarrow> ndarray2 \<Rightarrow> bool" where
  "is_pinv A G \<longleftrightarrow>
     pinv_shape A G \<and>
     matmul (matmul A G) A = A \<and> matmul (matmul G A) G = G \<and>
     np_T (matmul A G) = matmul A G \<and> np_T (matmul G A) = matmul G A"

text \<open>
  A concrete pseudo-inverse for the examples: on a diagonal matrix the Moore-Penrose
  inverse inverts the non-zero diagonal entries and keeps the zero ones
  (\<open>inverse 0 = 0\<close> in HOL).
\<close>

definition pinv_diag :: "ndarray2 \<Rightarrow> ndarray2" where
  "pinv_diag A = Array2 (shape1 A) (shape0 A)
     (map (\<lambda>i. map (\<lambda>j. if i = j then inverse (at2 A i i) else 0) [0..<shape0 A]) [0..<shape1 A])"

text \<open>A second implementation, which agrees with \<open>pinv_diag\<close> on diagonal matrices.\<close>

definition pinv_diag_T :: "ndarray2 \<Rightarrow> ndarray2" where
  "pinv_diag_T A = np_T (pinv_diag (np_T A))"

subsection \<open>The specification's formulas\<close>

text \<open>
  The quantities as the specification words them, entry by entry: \<open>spec_X\<close> is the
  \<open>n\<close>-by-\<open>m\<close> matrix whose columns are the prediction vectors, \<open>spec_pTy\<close> has the
  entries \<open>0.5 * (n * e0\<^sup>2 + sum of squares of p\<^sub>i - n * es\<^sub>i\<^sup>2)\<close>, \<open>spec_A\<close> is
  \<open>X\<^sup>T X + l * n * I\<close>, \<open>spec_w\<close> is \<open>pinv(X\<^sup>T X + l * n * I) @ pTy\<close> and
  \<open>spec_blend\<close> is \<open>X @ w\<close>. A valid input has \<open>m \<ge> 1\<close> scores and \<open>m\<close> prediction
  vectors, all of length \<open>n \<ge> 1\<close>.
\<close>

definition spec_X :: "real list list \<Rightarrow> nat \<Rightarrow> nat \<Rightarrow> ndarray2" where
  "spec_X ps n m = Array2 n m (map (\<lambda>j. map (\<lambda>i. ps ! i ! j) [0..<m]) [0..<n])"

definition spec_pTy :: "real list \<Rightarrow> real list list \<Rightarrow> real \<Rightarrow> nat \<Rightarrow> nat \<Rightarrow> real list" where
  "spec_pTy es ps e0 n m =
     map (\<lambda>i. 0.5 * (real n * e0\<^sup>2 + (\<Sum>j<n. (ps ! i ! j)\<^sup>2) - real n * (es ! i)\<^sup>2)) [0..<m]"

definition spec_A :: "real list list \<Rightarrow> real \<Rightarrow> nat \<Rightarrow> nat \<Rightarrow> ndarray2" where
  "spec_A ps l n m =
     Array2 m m
       (map (\<lambda>a. map (\<lambda>b. (\<Sum>j<n. at2 (spec_X ps n m) j a * at2 (spec_X ps n m) j b)
                           + l * real n * (if a = b then 1 else 0))
               [0..<m]) [0..<m])"

definition spec_w ::
  "(ndarray2 \<Rightarrow> ndarray2) \<Rightarrow> real list \<Rightarrow> real list list \<Rightarrow> real \<Rightarrow> real \<Rightarrow> nat \<Rightarrow> nat \<Rightarrow> real list" where
  "spec_w pinv es ps e0 l n m =
     map (\<lambda>a. \<Sum>b<m. at2 (pinv (spec_A ps l n m)) a b * spec_pTy es ps e0 n m ! b) [0..<m]"

definition spec_blend :: "real list list \<Rightarrow> real list \<Rightarrow> nat \<Rightarrow> nat \<Rightarrow> real list" where
  "spec_blend ps w n m = map (\<lambda>j. \<Sum>i<m. at2 (spec_X ps n m) j i * w ! i) [0..<n]"

definition valid_input :: "real list \<Rightarrow> real list list \<Rightarrow> nat \<Rightarrow> nat \<Rightarrow> bool" where
  "valid_input es ps n m \<longleftrightarrow>
     length es = m \<and> length ps = m \<and> 1 \<le> m \<and> list_all (\<lambda>p. length p = n) ps \<and> 1 \<le> n"

text \<open>
  The two components of a result, for statements about one of them
  (an error has neither, and the empty list stands for it).
\<close>

definition blend_of :: "error + (real list \<times> real list) \<Rightarrow> real list" where
  "blend_of r = (case r of Inl e \<Rightarrow> [] | Inr (b, w) \<Rightarrow> b)"

definition weights_of :: "error + (real list \<times> real list) \<Rightarrow> real list" where
  "weights_of r = (case r of Inl e \<Rightarrow> [] | Inr (b, w) \<Rightarrow> w)"

subsection \<open>Matrices as index functions\<close>

text \<open>
  For the algebra of the pseudo-inverse an array is read as a function of two indices
  that is zero outside the shape; \<open>mmf k\<close> is the matrix product with inner dimension
  \<open>k\<close> and \<open>trf\<close> the transpose.
\<close>

definition fn2 :: "ndarray2 \<Rightarrow> nat \<Rightarrow> nat \<Rightarrow> real" where
  "fn2 A i j = (if i < shape0 A \<and> j < shape1 A then at2 A i j else 0)"

definition mmf :: "nat \<Rightarrow> (nat \<Rightarrow> nat \<Rightarrow> real) \<Rightarrow> (nat \<Rightarrow> nat \<Rightarrow> real) \<Rightarrow> nat \<Rightarrow> nat \<Rightarrow> real" where
  "mmf k F G i j = (\<Sum>t<k. F i t * G t j)"

definition trf :: "(nat \<Rightarrow> nat \<Rightarrow> real) \<Rightarrow> nat \<Rightarrow> nat \<Rightarrow> real" where
  "trf F i j = F j i"

text \<open>The four Penrose equations on index functions, for a \<open>p\<close>-by-\<open>q\<close> matrix \<open>a\<close>.\<close>

definition penrose :: "nat \<Rightarrow> nat \<Rightarrow> (nat \<Rightarrow> nat \<Rightarrow> real) \<Rightarrow> (nat \<Rightarrow> nat \<Rightarrow> real) \<Rightarrow> bool" where
  "penrose p q a g \<longleftrightarrow>
     mmf p (mmf q a g) a = a \<and> mmf q (mmf p g a) g = g \<and>
     trf (mmf q a g) = mmf q a g \<and> trf (mmf p g a) = mmf p g a"

section \<open>The fold splitter \<^verbatim>\<open>create_folds\<close>\<close>

text \<open>
  \<^verbatim>\<open>
  def create_folds(data, y, n_splits=5, random_state=None):
      data = data.sample(frac=1, random_state=random_state).reset_index(drop=True)
      num_bins = int(np.floor(1 + np.log2(len(data))))
      data.loc[:, "bins"] = pd.cut(y, bins=num_bins, labels=False)
      kf = StratifiedKFold(n_splits=n_splits, shuffle=True, random_state=random_state)

      splits = []
      for f, (t_, v_) in enumerate(kf.split(X=data, y=data.bins.values)):
          splits.append((t_, v_))
      return splits
  \<close>
  The table \<^verbatim>\<open>data\<close> is a list of rows, \<^verbatim>\<open>y\<close> an array of targets (a \<open>real list\<close>, so
  the column assignment is by position), \<^verbatim>\<open>n_splits\<close> a Python integer and
  \<^verbatim>\<open>random_state\<close> an integer seed or \<^verbatim>\<open>None\<close>. The functions of pandas and
  scikit-learn that the body calls are modelled after these libraries
  (\<^verbatim>\<open>pandas.cut\<close>; \<^verbatim>\<open>StratifiedKFold._make_test_folds\<close> and \<^verbatim>\<open>split\<close> as of
  scikit-learn 0.22 and later); warnings are not modelled.
\<close>

subsection \<open>Random numbers\<close>

text \<open>
  numpy's generator is a parameter: a type \<open>'g\<close> of generator states,
  \<^verbatim>\<open>RandomState(seed)\<close>, \<^verbatim>\<open>permutation(n)\<close> (what \<^verbatim>\<open>choice(n, size=n, replace=False)\<close>
  draws) and \<^verbatim>\<open>shuffle(xs)\<close>, the last two returning the advanced state. Their
  contract \<open>rng_contract\<close>: a permutation of \<open>0, ..., n - 1\<close>, and a rearrangement of
  the list.
\<close>

record 'g rng_lib =
  RandomState :: "int \<Rightarrow> 'g"
  permutation :: "'g \<Rightarrow> nat \<Rightarrow> nat list \<times> 'g"
  shuffle :: "'g \<Rightarrow> nat list \<Rightarrow> nat list \<times> 'g"

definition rng_contract :: "'g rng_lib \<Rightarrow> bool" where
  "rng_contract lib \<longleftrightarrow>
     (\<forall>g n. mset (fst (permutation lib g n)) = mset [0..<n]) \<and>
     (\<forall>g xs. mset (fst (shuffle lib g xs)) = mset xs)"

text \<open>
  \<^verbatim>\<open>random_state=None\<close> draws from numpy's global generator, whose state \<open>g\<close> is
  threaded through the call; an integer seed makes a fresh \<^verbatim>\<open>RandomState(seed)\<close> and
  leaves the global generator alone. \<^verbatim>\<open>RandomState(seed)\<close> raises \<^verbatim>\<open>ValueError\<close> for a
  seed outside \<open>0, ..., 2\<^sup>3\<^sup>2 - 1\<close>.
\<close>

definition with_random_state ::
  "'g rng_lib \<Rightarrow> int option \<Rightarrow> ('g \<Rightarrow> (error + 'a) \<times> 'g) \<Rightarrow> 'g \<Rightarrow> (error + 'a) \<times> 'g" where
  "with_random_state lib random_state f g =
     (case random_state of
        None \<Rightarrow> f g
      | Some seed \<Rightarrow>
          if 0 \<le> seed \<and> seed < 2 ^ 32 then (fst (f (RandomState lib seed)), g)
          else (Inl ValueError, g))"


text \<open>
  A generator for the examples: the state is a counter, and the \<open>g\<close>-th draw rotates
  by \<open>g\<close> places.
\<close>

definition toy_rng :: "nat rng_lib" where
  "toy_rng = \<lparr> RandomState = (\<lambda>seed. nat \<bar>seed\<bar>),
               permutation = (\<lambda>g n. (rotate g [0..<n], Suc g)),
               shuffle = (\<lambda>g xs. (rotate g xs, Suc g)) \<rparr>"

subsection \<open>pandas\<close>

text \<open>
  \<^verbatim>\<open>data.sample(frac=1, random_state=...).reset_index(drop=True)\<close>: the rows taken at
  the drawn positions (\<^verbatim>\<open>take\<close> raises \<^verbatim>\<open>IndexError\<close> on a position out of bounds).
\<close>

definition sample :: "'g rng_lib \<Rightarrow> 'a list \<Rightarrow> 'g \<Rightarrow> (error + 'a list) \<times> 'g" where
  "sample lib data rng =
     (let (idx, rng') = permutation lib rng (length data) in
      (if list_all (\<lambda>i. i < length data) idx then Inr (map (\<lambda>i. data ! i) idx) else Inl IndexError,
       rng'))"

text \<open>
  \<^verbatim>\<open>int(np.floor(1 + np.log2(N)))\<close>: for \<open>N = 0\<close> the logarithm is \<open>-inf\<close> and \<^verbatim>\<open>int\<close>
  raises \<^verbatim>\<open>OverflowError\<close>.
\<close>

definition num_bins :: "nat \<Rightarrow> error + nat" where
  "num_bins N = (if N = 0 then Inl OverflowError else Inr (nat \<lfloor>1 + log 2 (real N)\<rfloor>))"

text \<open>\<^verbatim>\<open>np.linspace(a, b, k + 1)\<close>\<close>

definition linspace :: "real \<Rightarrow> real \<Rightarrow> nat \<Rightarrow> real list" where
  "linspace a b k = map (\<lambda>i. a + real i * ((b - a) / real k)) [0..<k + 1]"

text \<open>
  The bin edges of \<^verbatim>\<open>pd.cut(x, bins=nbins)\<close> (\<^verbatim>\<open>_nbins_to_bins\<close>, \<^verbatim>\<open>right=True\<close>):
  equal-width edges from the minimum to the maximum, the first edge lowered by 0.1% of
  the range; when all values are equal the range is widened by 0.1% on both sides first.
\<close>

definition cut_edges :: "real list \<Rightarrow> nat \<Rightarrow> real list" where
  "cut_edges x nbins =
     (let mn = Min (set x); mx = Max (set x) in
      if mn = mx
      then linspace (mn - (if mn \<noteq> 0 then 0.001 * \<bar>mn\<bar> else 0.001))
                    (mx + (if mx \<noteq> 0 then 0.001 * \<bar>mx\<bar> else 0.001)) nbins
      else (let bins = linspace mn mx nbins; adj = (mx - mn) * 0.001
            in bins[0 := bins ! 0 - adj]))"

text \<open>
  The label of one value (\<^verbatim>\<open>_bins_to_cuts\<close>, \<^verbatim>\<open>labels=False\<close>):
  \<^verbatim>\<open>searchsorted(bins, v, side="left")\<close> counts the edges below \<open>v\<close>; a count of 0 or
  of all edges is outside every bin and gives NaN (\<open>None\<close>), otherwise the label is the
  count minus one, so the bins are \<open>(edge, next edge]\<close>.
\<close>

definition cut_label :: "real list \<Rightarrow> real \<Rightarrow> nat option" where
  "cut_label bins v =
     (let ids = length (filter (\<lambda>b. b < v) bins)
      in if ids = length bins \<or> ids = 0 then None else Some (ids - 1))"

text \<open>
  \<^verbatim>\<open>pd.cut(x, bins=nbins, labels=False)\<close>: \<^verbatim>\<open>ValueError\<close> for \<open>nbins < 1\<close>, for an
  empty \<open>x\<close>, and for edges that are not all different, unless there are just two
  (\<^verbatim>\<open>_bins_to_cuts\<close>, \<^verbatim>\<open>duplicates="raise"\<close>).
\<close>

definition pd_cut :: "real list \<Rightarrow> nat \<Rightarrow> error + nat option list" where
  "pd_cut x nbins =
     (if nbins < 1 then Inl ValueError
      else if x = [] then Inl ValueError
      else (let bins = cut_edges x nbins
            in if length (remdups bins) < length bins \<and> length bins \<noteq> 2 then Inl ValueError
               else Inr (map (cut_label bins) x)))"

subsection \<open>scikit-learn\<close>

text \<open>
  \<^verbatim>\<open>_make_test_folds\<close>. The classes are encoded by order of first appearance
  (\<^verbatim>\<open>np.unique\<close> twice); \<^verbatim>\<open>allocation[i][c]\<close> counts class \<open>c\<close> in
  \<^verbatim>\<open>y_order[i::n_splits]\<close>; class by class, \<^verbatim>\<open>np.arange(n_splits).repeat(allocation[:, c])\<close>
  is shuffled and written to the positions of the class
  (\<^verbatim>\<open>test_folds[y_encoded == c] = folds_for_class\<close>, a \<^verbatim>\<open>ValueError\<close> when the lengths
  differ). \<^verbatim>\<open>test_folds\<close> starts uninitialised (\<^verbatim>\<open>np.empty\<close>): \<open>None\<close>.
\<close>

fun index_of :: "nat list \<Rightarrow> nat \<Rightarrow> nat" where
  "index_of [] y = 0"
| "index_of (x # xs) y = (if x = y then 0 else Suc (index_of xs y))"

definition encode_classes :: "nat list \<Rightarrow> nat list" where
  "encode_classes y = map (index_of (rev (remdups (rev y)))) y"

definition strided :: "nat list \<Rightarrow> nat \<Rightarrow> nat \<Rightarrow> nat list" where
  "strided xs i k = map (\<lambda>j. xs ! j) (filter (\<lambda>j. i \<le> j \<and> (j - i) mod k = 0) [0..<length xs])"

definition allocation :: "nat list \<Rightarrow> nat \<Rightarrow> nat \<Rightarrow> nat list list" where
  "allocation y_order k n_classes =
     map (\<lambda>i. map (\<lambda>c. count_list (strided y_order i k) c) [0..<n_classes]) [0..<k]"

definition folds_for_class :: "nat list list \<Rightarrow> nat \<Rightarrow> nat \<Rightarrow> nat list" where
  "folds_for_class alloc k c = concat (map (\<lambda>i. replicate (alloc ! i ! c) i) [0..<k])"

definition mask_assign :: "nat option list \<Rightarrow> nat list \<Rightarrow> nat list \<Rightarrow> error + nat option list" where
  "mask_assign a pos vals =
     (if length vals = length pos
      then Inr (fold (\<lambda>(p, v) a. a[p := Some v]) (zip pos vals) a)
      else Inl ValueError)"

fun assign_classes ::
  "'g rng_lib \<Rightarrow> nat list list \<Rightarrow> nat \<Rightarrow> nat list \<Rightarrow> nat list \<Rightarrow> nat option list \<Rightarrow> 'g
     \<Rightarrow> (error + nat option list) \<times> 'g" where
  "assign_classes lib alloc k y_encoded [] test_folds rng = (Inr test_folds, rng)"
| "assign_classes lib alloc k y_encoded (c # cs) test_folds rng =
     (let (shuffled, rng') = shuffle lib rng (folds_for_class alloc k c)
      in case mask_assign test_folds (filter (\<lambda>j. y_encoded ! j = c) [0..<length y_encoded]) shuffled of
           Inl e \<Rightarrow> (Inl e, rng')
         | Inr test_folds' \<Rightarrow> assign_classes lib alloc k y_encoded cs test_folds' rng')"

definition make_test_folds ::
  "'g rng_lib \<Rightarrow> nat \<Rightarrow> nat list \<Rightarrow> 'g \<Rightarrow> (error + nat option list) \<times> 'g" where
  "make_test_folds lib k y rng =
     (let y_encoded = encode_classes y;
          n_classes = length (remdups y);
          y_counts = map (count_list y_encoded) [0..<n_classes]
      in if list_all (\<lambda>c. k > c) y_counts then (Inl ValueError, rng)
         else assign_classes lib (allocation (sort y_encoded) k n_classes) k y_encoded
                [0..<n_classes] (replicate (length y) None) rng)"

text \<open>
  \<^verbatim>\<open>kf.split(X, y)\<close>: \<^verbatim>\<open>ValueError\<close> when \<open>X\<close> and \<open>y\<close> differ in length or there are
  more splits than samples; fold \<open>i\<close> validates on the indices with
  \<^verbatim>\<open>test_folds == i\<close> and trains on the others.
\<close>

definition kf_split ::
  "'g rng_lib \<Rightarrow> nat \<Rightarrow> nat \<Rightarrow> nat list \<Rightarrow> 'g \<Rightarrow> (error + (nat list \<times> nat list) list) \<times> 'g" where
  "kf_split lib k n_samples y rng =
     (if length y \<noteq> n_samples then (Inl ValueError, rng)
      else if k > n_samples then (Inl ValueError, rng)
      else case make_test_folds lib k y rng of
             (Inl e, rng') \<Rightarrow> (Inl e, rng')
           | (Inr test_folds, rng') \<Rightarrow>
               (Inr (map (\<lambda>i. (filter (\<lambda>j. test_folds ! j \<noteq> Some i) [0..<n_samples],
                               filter (\<lambda>j. test_folds ! j = Some i) [0..<n_samples])) [0..<k]),
                rng'))"

subsection \<open>\<^verbatim>\<open>create_folds\<close>\<close>

text \<open>
  The first three lines: the shuffled table with its \<^verbatim>\<open>bins\<close> column. The column
  assignment raises \<^verbatim>\<open>ValueError\<close> when the lengths differ.
\<close>

definition binned_table ::
  "'g rng_lib \<Rightarrow> 'a list \<Rightarrow> real list \<Rightarrow> int option \<Rightarrow> 'g \<Rightarrow> (error + ('a \<times> nat option) list) \<times> 'g" where
  "binned_table lib data y random_state g =
     (case with_random_state lib random_state (sample lib data) g of
        (Inl e, g') \<Rightarrow> (Inl e, g')
      | (Inr data', g') \<Rightarrow>
          (case num_bins (length data') of
             Inl e \<Rightarrow> (Inl e, g')
           | Inr nb \<Rightarrow>
               (case pd_cut y nb of
                  Inl e \<Rightarrow> (Inl e, g')
                | Inr bins \<Rightarrow>
                    if length bins = length data' then (Inr (zip data' bins), g')
                    else (Inl ValueError, g'))))"

text \<open>
  The whole function. \<^verbatim>\<open>StratifiedKFold(n_splits=...)\<close> raises \<^verbatim>\<open>ValueError\<close> for
  \<open>n_splits \<le> 1\<close>, and \<^verbatim>\<open>split\<close> raises it for a label that is NaN.
\<close>

definition create_folds ::
  "'g rng_lib \<Rightarrow> 'a list \<Rightarrow> real list \<Rightarrow> int \<Rightarrow> int option \<Rightarrow> 'g
     \<Rightarrow> (error + (nat list \<times> nat list) list) \<times> 'g" where
  "create_folds lib data y n_splits random_state g =
     (case binned_table lib data y random_state g of
        (Inl e, g') \<Rightarrow> (Inl e, g')
      | (Inr table, g') \<Rightarrow>
          if n_splits \<le> 1 then (Inl ValueError, g')
          else if \<not> list_all (\<lambda>b. b \<noteq> None) (map snd table) then (Inl ValueError, g')
          else with_random_state lib random_state
                 (kf_split lib (nat n_splits) (length table) (map (\<lambda>r. the (snd r)) table)) g')"



text \<open>
  A pair of train and validation indices partitions \<open>0, ..., n - 1\<close>: the two lists have
  no repetitions, nothing in common, and together hold every index.
\<close>

definition partitions :: "nat \<Rightarrow> nat list \<times> nat list \<Rightarrow> bool" where
  "partitions n tv \<longleftrightarrow>
     set (fst tv) \<union> set (snd tv) = {0..<n} \<and> set (fst tv) \<inter> set (snd tv) = {} \<and>
     distinct (fst tv) \<and> distinct (snd tv)"

section \<open>Properties of \<^verbatim>\<open>netflix\<close>\<close>

subsection \<open>The numpy operations on well-shaped arguments\<close>

lemma dot_sum:
  "length u = k \<Longrightarrow> length v = k \<Longrightarrow> sum_list (map2 (*) u v) = (\<Sum>t<k. u ! t * v ! t :: real)"
  by (simp add: sum_list_sum_nth atLeast0LessThan)

lemma map_by_index: "length xs = k \<Longrightarrow> map f xs = map (\<lambda>i. f (xs ! i)) [0..<k]"
  by (auto intro: nth_equalityI)

lemma at2_spec_X: "j < n \<Longrightarrow> i < m \<Longrightarrow> at2 (spec_X ps n m) j i = ps ! i ! j"
  by (simp add: at2_def spec_X_def)

lemma spec_A_entries:
  "spec_A ps l n m =
     Array2 m m (map (\<lambda>a. map (\<lambda>b. (\<Sum>j<n. ps ! a ! j * ps ! b ! j) + l * real n * (if a = b then 1 else 0))
                   [0..<m]) [0..<m])"
  by (simp add: spec_A_def at2_spec_X)

lemma spec_blend_entries:
  "spec_blend ps w n m = map (\<lambda>j. \<Sum>i<m. ps ! i ! j * w ! i) [0..<n]"
  by (simp add: spec_blend_def at2_spec_X)

lemma np_stack_ok:
  assumes "ps \<noteq> []" "list_all (\<lambda>p. length p = n) ps"
  shows "np_stack ps = Inr (Array2 (length ps) n ps)"
  using assms by (cases ps) (auto simp: np_stack_def list_all_iff)

lemma np_T_stack:
  assumes "length ps = m"
  shows "np_T (Array2 m n ps) = spec_X ps n m"
  using assms by (simp add: np_T_def spec_X_def map_by_index[of ps m])

lemma sum_axis0_square:
  assumes "length ps = m" "list_all (\<lambda>p. length p = n) ps"
  shows "sum_axis0 (np_square (spec_X ps n m)) = map (\<lambda>i. \<Sum>j<n. (ps ! i ! j)\<^sup>2) [0..<m]"
  using assms
  by (simp add: sum_axis0_def np_square_def spec_X_def sum_list_sum_nth atLeast0LessThan o_def)

lemma gram:
  assumes "length ps = m" "list_all (\<lambda>p. length p = n) ps"
  shows "dot22 (np_T (spec_X ps n m)) (spec_X ps n m) =
     Inr (Array2 m m (map (\<lambda>a. map (\<lambda>b. \<Sum>j<n. ps ! a ! j * ps ! b ! j) [0..<m]) [0..<m]))"
  using assms
  by (simp add: dot22_def matmul_def np_T_def spec_X_def dot_sum[of _ n] o_def)

lemma add_ridge:
  "np_add2 (Array2 m m (map (\<lambda>a. map (\<lambda>b. f a b) [0..<m]) [0..<m])) (scale2 c (np_eye m)) =
     Inr (Array2 m m (map (\<lambda>a. map (\<lambda>b. f a b + c * (if a = b then 1 else 0)) [0..<m]) [0..<m]))"
  by (auto simp: np_add2_def broadcast_dim_def scale2_def np_eye_def at2_def)

lemma dot21_pinv:
  assumes "pinv_shape A G" "shape0 A = m" "shape1 A = m" "length v = m"
  shows "dot21 G v = Inr (map (\<lambda>a. \<Sum>b<m. at2 G a b * v ! b) [0..<m])"
proof -
  have len: "length (rows G) = m" and row: "\<And>a. a < m \<Longrightarrow> length (rows G ! a) = m"
    using assms by (auto simp: pinv_shape_def wf2_def list_all_length)
  have "map (\<lambda>r. sum_list (map2 (*) r v)) (rows G) = map (\<lambda>a. \<Sum>b<m. at2 G a b * v ! b) [0..<m]"
    using len row assms(4) by (auto intro!: nth_equalityI simp: dot_sum[of _ m] at2_def)
  then show ?thesis
    using assms by (simp add: dot21_def pinv_shape_def)
qed

lemma dot21_X:
  assumes "length ps = m" "list_all (\<lambda>p. length p = n) ps" "length w = m"
  shows "dot21 (spec_X ps n m) w = Inr (spec_blend ps w n m)"
  using assms by (simp add: dot21_def spec_X_def spec_blend_entries dot_sum[of _ m] o_def)

subsection \<open>The result on a valid input\<close>

lemma netflix_aligned:
  assumes les: "length es = m" and lps: "length ps = m" and m: "1 \<le> m"
    and all: "list_all (\<lambda>p. length p = n) ps"
    and p: "pinv_shape (spec_A ps l n m) (pinv (spec_A ps l n m))"
  shows "netflix pinv es ps e0 l =
           Inr (spec_blend ps (spec_w pinv es ps e0 l n m) n m, spec_w pinv es ps e0 l n m)"
proof -
  from lps m obtain p0 rest where ps: "ps = p0 # rest" by (cases ps) auto
  with all have p0: "length (hd ps) = n" and ne: "ps \<noteq> []" by simp_all
  have st: "np_stack ps = Inr (Array2 m n ps)"
    using np_stack_ok[of ps n] all lps ps by auto
  have X: "np_T (Array2 m n ps) = spec_X ps n m" by (rule np_T_stack[OF lps])
  have d: "broadcast1 (-) (map (\<lambda>s. real n * e0\<^sup>2 + s) (sum_axis0 (np_square (spec_X ps n m))))
             (map (\<lambda>e. real n * e\<^sup>2) es)
         = Inr (map (\<lambda>i. real n * e0\<^sup>2 + (\<Sum>j<n. (ps ! i ! j)\<^sup>2) - real n * (es ! i)\<^sup>2) [0..<m])"
    using les by (auto simp: broadcast1_def sum_axis0_square[OF lps all] intro!: nth_equalityI)
  have pTy: "map (\<lambda>x. 0.5 * x)
               (map (\<lambda>i. real n * e0\<^sup>2 + (\<Sum>j<n. (ps ! i ! j)\<^sup>2) - real n * (es ! i)\<^sup>2) [0..<m])
         = spec_pTy es ps e0 n m"
    by (simp add: spec_pTy_def)
  have A: "np_add2 (Array2 m m (map (\<lambda>a. map (\<lambda>b. \<Sum>j<n. ps ! a ! j * ps ! b ! j) [0..<m]) [0..<m]))
             (scale2 (l * real n) (np_eye m)) = Inr (spec_A ps l n m)"
    by (simp add: add_ridge spec_A_entries)
  have w: "dot21 (pinv (spec_A ps l n m)) (spec_pTy es ps e0 n m) = Inr (spec_w pinv es ps e0 l n m)"
    using dot21_pinv[OF p, of m "spec_pTy es ps e0 n m"]
    by (simp add: spec_w_def spec_A_entries spec_pTy_def)
  have b: "dot21 (spec_X ps n m) (spec_w pinv es ps e0 l n m)
         = Inr (spec_blend ps (spec_w pinv es ps e0 l n m) n m)"
    by (rule dot21_X[OF lps all]) (simp add: spec_w_def)
  show ?thesis
    unfolding netflix_def Let_def
    by (simp only: ne if_False p0 les st sum.case X d pTy gram[OF lps all] A w b)
qed

lemma netflix_valid:
  assumes v: "valid_input es ps n m"
    and p: "pinv_shape (spec_A ps l n m) (pinv (spec_A ps l n m))"
  shows "netflix pinv es ps e0 l =
           Inr (spec_blend ps (spec_w pinv es ps e0 l n m) n m, spec_w pinv es ps e0 l n m)"
  using v by (intro netflix_aligned[where pinv = pinv] p) (simp_all add: valid_input_def)

text \<open>
  C1. For \<open>m \<ge> 1\<close> models whose prediction vectors all have length \<open>n \<ge> 1\<close>,
  \<^verbatim>\<open>netflix(es, ps, e0, l)\<close> returns exactly \<open>(X @ w, w)\<close>, where \<open>X\<close> is the
  \<open>n\<close>-by-\<open>m\<close> matrix whose columns are the prediction vectors, the \<open>i\<close>-th entry of
  \<open>pTy\<close> is \<open>0.5 * (n * e0\<^sup>2 + sum of squares of p\<^sub>i - n * es\<^sub>i\<^sup>2)\<close> and
  \<open>w = pinv(X\<^sup>T X + l * n * I) @ pTy\<close>. Of \<^verbatim>\<open>pinv\<close> only the shape of its result is used.
\<close>

theorem netflix_formula:
  assumes "valid_input es ps n m"
    and "pinv_shape (spec_A ps l n m) (pinv (spec_A ps l n m))"
  shows "netflix pinv es ps e0 l =
           Inr (spec_blend ps (spec_w pinv es ps e0 l n m) n m, spec_w pinv es ps e0 l n m)"
  using assms by (rule netflix_valid)

theorem netflix_formula_witness:
  "valid_input [1, 1/2] [[1, 0], [0, 2]] 2 2 \<and>
   pinv_shape (spec_A [[1, 0], [0, 2]] (1/10000) 2 2) (pinv_diag (spec_A [[1, 0], [0, 2]] (1/10000) 2 2)) \<and>
   netflix pinv_diag [1, 1/2] [[1, 0], [0, 2]] 1 (1/10000)
     = Inr ([2500 / 5001, 27500 / 20001], [2500 / 5001, 13750 / 20001])"
proof -
  have v: "valid_input [1, 1/2] [[1, 0], [0, 2]] 2 2"
    by (simp add: valid_input_def)
  have p: "pinv_shape (spec_A [[1, 0], [0, 2]] (1/10000) 2 2)
             (pinv_diag (spec_A [[1, 0], [0, 2]] (1/10000) 2 2))"
    by (simp add: spec_A_entries pinv_shape_def pinv_diag_def wf2_def eval_nat_numeral)
  show ?thesis
    using netflix_formula[of "[1, 1/2]" "[[1, 0], [0, 2]]" 2 2 "1/10000" pinv_diag 1] v p
    by (simp add: spec_A_entries spec_blend_entries spec_w_def spec_pTy_def pinv_diag_def at2_def
        eval_nat_numeral lessThan_Suc)
qed

subsection \<open>Uniqueness of the Moore-Penrose inverse\<close>

lemma mmf_assoc: "mmf k2 (mmf k1 F G) H = mmf k1 F (mmf k2 G H)"
proof (intro ext)
  fix i j
  have "mmf k2 (mmf k1 F G) H i j = (\<Sum>t<k2. \<Sum>s<k1. F i s * G s t * H t j)"
    by (simp add: mmf_def sum_distrib_right)
  also have "\<dots> = (\<Sum>s<k1. \<Sum>t<k2. F i s * G s t * H t j)"
    by (rule sum.swap)
  also have "\<dots> = mmf k1 F (mmf k2 G H) i j"
    by (simp add: mmf_def sum_distrib_left mult.assoc)
  finally show "mmf k2 (mmf k1 F G) H i j = mmf k1 F (mmf k2 G H) i j" .
qed

lemma trf_mmf: "trf (mmf k F G) = mmf k (trf G) (trf F)"
  by (intro ext) (simp add: trf_def mmf_def mult.commute)

lemma wf2_matmul: "wf2 A \<Longrightarrow> wf2 (matmul A B)"
  by (simp add: wf2_def matmul_def list_all_iff)

lemma wf2_np_T: "wf2 A \<Longrightarrow> wf2 (np_T A)"
  by (simp add: wf2_def np_T_def list_all_iff)

lemma at2_matmul:
  assumes "wf2 A" "wf2 B" "shape1 A = shape0 B" "i < shape0 A" "j < shape1 B"
  shows "at2 (matmul A B) i j = (\<Sum>t<shape1 A. at2 A i t * at2 B t j)"
proof -
  have la: "length (rows A ! i) = shape1 A" and lb: "length (rows B) = shape1 A"
    using assms by (auto simp: wf2_def list_all_length)
  show ?thesis
    using assms la lb
    by (simp add: at2_def matmul_def wf2_def dot_sum[of _ "shape1 A"])
qed

lemma fn2_matmul:
  assumes "wf2 A" "wf2 B" "shape1 A = shape0 B"
  shows "fn2 (matmul A B) = mmf (shape1 A) (fn2 A) (fn2 B)"
proof (intro ext)
  fix i j
  show "fn2 (matmul A B) i j = mmf (shape1 A) (fn2 A) (fn2 B) i j"
  proof (cases "i < shape0 A \<and> j < shape1 B")
    case True
    then show ?thesis
      using at2_matmul[OF assms, of i j] assms(3)
      by (simp add: fn2_def mmf_def matmul_def)
  next
    case False
    then show ?thesis
      by (auto simp: fn2_def mmf_def matmul_def)
  qed
qed

lemma fn2_np_T: "wf2 A \<Longrightarrow> fn2 (np_T A) = trf (fn2 A)"
  by (intro ext) (auto simp: fn2_def trf_def np_T_def at2_def wf2_def)

lemma fn2_inject:
  assumes "wf2 A" "wf2 B" "shape0 A = shape0 B" "shape1 A = shape1 B" "fn2 A = fn2 B"
  shows "A = B"
proof -
  have "rows A = rows B"
  proof (rule nth_equalityI)
    show "length (rows A) = length (rows B)"
      using assms by (simp add: wf2_def)
  next
    fix i assume i: "i < length (rows A)"
    then have i0: "i < shape0 A" "i < shape0 B" using assms by (simp_all add: wf2_def)
    have la: "length (rows A ! i) = shape1 A" and lb: "length (rows B ! i) = shape1 A"
      using assms i i0 by (auto simp: wf2_def list_all_length)
    show "rows A ! i = rows B ! i"
    proof (rule nth_equalityI)
      show "length (rows A ! i) = length (rows B ! i)" using la lb by simp
    next
      fix j assume "j < length (rows A ! i)"
      then have j: "j < shape1 A" using la by simp
      have "fn2 A i j = fn2 B i j" using assms(5) by simp
      then show "rows A ! i ! j = rows B ! i ! j"
        using i0 j assms(4) by (simp add: fn2_def at2_def)
    qed
  qed
  then show ?thesis
    using assms(3,4) by (simp add: ndarray2.expand)
qed

lemma penrose_unique:
  assumes g: "penrose p q a g" and h: "penrose p q a h"
  shows "g = h"
proof -
  from g have g1: "mmf p (mmf q a g) a = a" and g2: "mmf q (mmf p g a) g = g"
    and g3: "trf (mmf q a g) = mmf q a g" and g4: "trf (mmf p g a) = mmf p g a"
    by (simp_all add: penrose_def)
  from h have h1: "mmf p (mmf q a h) a = a" and h2: "mmf q (mmf p h a) h = h"
    and h3: "trf (mmf q a h) = mmf q a h" and h4: "trf (mmf p h a) = mmf p h a"
    by (simp_all add: penrose_def)
  have ga_ha: "mmf p g a = mmf p h a"
  proof -
    have "mmf q (mmf p h a) (mmf p g a) = mmf p h (mmf p (mmf q a g) a)"
      by (simp add: mmf_assoc)
    then have hg: "mmf q (mmf p h a) (mmf p g a) = mmf p h a"
      by (simp add: g1)
    have "mmf p g a = mmf p g (mmf p (mmf q a h) a)"
      by (simp add: h1)
    also have "\<dots> = mmf q (mmf p g a) (mmf p h a)"
      by (simp add: mmf_assoc)
    also have "\<dots> = mmf q (trf (mmf p g a)) (trf (mmf p h a))"
      by (simp add: g4 h4)
    also have "\<dots> = trf (mmf q (mmf p h a) (mmf p g a))"
      by (simp add: trf_mmf)
    also have "\<dots> = mmf p h a"
      by (simp add: hg h4)
    finally show ?thesis .
  qed
  have ag_ah: "mmf q a g = mmf q a h"
  proof -
    have "mmf p (mmf q a g) (mmf q a h) = mmf q (mmf p (mmf q a g) a) h"
      by (simp add: mmf_assoc)
    then have gh: "mmf p (mmf q a g) (mmf q a h) = mmf q a h"
      by (simp add: g1)
    have "mmf q a g = mmf q (mmf p (mmf q a h) a) g"
      by (simp add: h1)
    also have "\<dots> = mmf p (mmf q a h) (mmf q a g)"
      by (simp add: mmf_assoc)
    also have "\<dots> = mmf p (trf (mmf q a h)) (trf (mmf q a g))"
      by (simp add: g3 h3)
    also have "\<dots> = trf (mmf p (mmf q a g) (mmf q a h))"
      by (simp add: trf_mmf)
    also have "\<dots> = mmf q a h"
      by (simp add: gh h3)
    finally show ?thesis .
  qed
  have "g = mmf q (mmf p h a) g"
    using g2 ga_ha by simp
  also have "\<dots> = mmf p h (mmf q a g)"
    by (simp add: mmf_assoc)
  also have "\<dots> = mmf p h (mmf q a h)"
    by (simp add: ag_ah)
  also have "\<dots> = mmf q (mmf p h a) h"
    by (simp add: mmf_assoc)
  also have "\<dots> = h"
    by (rule h2)
  finally show ?thesis .
qed

lemma is_pinv_penrose:
  assumes A: "wf2 A" and G: "is_pinv A G"
  shows "penrose (shape0 A) (shape1 A) (fn2 A) (fn2 G)"
proof -
  from G have wG: "wf2 G" and s0: "shape0 G = shape1 A" and s1: "shape1 G = shape0 A"
    and e1: "matmul (matmul A G) A = A" and e2: "matmul (matmul G A) G = G"
    and e3: "np_T (matmul A G) = matmul A G" and e4: "np_T (matmul G A) = matmul G A"
    by (simp_all add: is_pinv_def pinv_shape_def)
  have AG: "fn2 (matmul A G) = mmf (shape1 A) (fn2 A) (fn2 G)"
    using fn2_matmul[OF A wG] s0 by simp
  have GA: "fn2 (matmul G A) = mmf (shape0 A) (fn2 G) (fn2 A)"
    using fn2_matmul[OF wG A] s1 by simp
  have wAG: "wf2 (matmul A G)" and wGA: "wf2 (matmul G A)"
    using A wG by (simp_all add: wf2_matmul)
  have "fn2 (matmul (matmul A G) A) = mmf (shape0 A) (fn2 (matmul A G)) (fn2 A)"
    using fn2_matmul[OF wAG A] s1 by (simp add: matmul_def)
  then have 1: "mmf (shape0 A) (mmf (shape1 A) (fn2 A) (fn2 G)) (fn2 A) = fn2 A"
    by (simp add: e1 AG)
  have "fn2 (matmul (matmul G A) G) = mmf (shape1 A) (fn2 (matmul G A)) (fn2 G)"
    using fn2_matmul[OF wGA wG] s0 by (simp add: matmul_def)
  then have 2: "mmf (shape1 A) (mmf (shape0 A) (fn2 G) (fn2 A)) (fn2 G) = fn2 G"
    by (simp add: e2 GA)
  have 3: "trf (mmf (shape1 A) (fn2 A) (fn2 G)) = mmf (shape1 A) (fn2 A) (fn2 G)"
    using fn2_np_T[OF wAG] by (simp add: e3 AG)
  have 4: "trf (mmf (shape0 A) (fn2 G) (fn2 A)) = mmf (shape0 A) (fn2 G) (fn2 A)"
    using fn2_np_T[OF wGA] by (simp add: e4 GA)
  show ?thesis
    unfolding penrose_def using 1 2 3 4 by simp
qed

lemma is_pinv_unique:
  assumes A: "wf2 A" and G: "is_pinv A G" and H: "is_pinv A H"
  shows "G = H"
proof (rule fn2_inject)
  show "wf2 G" "wf2 H" "shape0 G = shape0 H" "shape1 G = shape1 H"
    using G H by (simp_all add: is_pinv_def pinv_shape_def)
  show "fn2 G = fn2 H"
    by (rule penrose_unique[OF is_pinv_penrose[OF A G] is_pinv_penrose[OF A H]])
qed

lemma wf2_spec_A: "wf2 (spec_A ps l n m)"
  by (simp add: spec_A_def wf2_def list_all_iff)

lemma is_pinv_shape: "is_pinv A G \<Longrightarrow> pinv_shape A G"
  by (simp add: is_pinv_def)

subsection \<open>Scaling\<close>

lemma dot_scale_left: "sum_list (map2 (*) (map ((*) c) u) v) = c * sum_list (map2 (*) u (v::real list))"
proof (induction u arbitrary: v)
  case Nil
  then show ?case by simp
next
  case (Cons a u)
  then show ?case by (cases v) (simp_all add: algebra_simps)
qed

lemma dot_scale_right: "sum_list (map2 (*) u (map ((*) c) v)) = c * sum_list (map2 (*) u (v::real list))"
proof (induction u arbitrary: v)
  case Nil
  then show ?case by simp
next
  case (Cons a u)
  then show ?case by (cases v) (simp_all add: algebra_simps)
qed

lemma matmul_scale_left: "matmul (scale2 c A) B = scale2 c (matmul A B)"
  by (simp add: matmul_def scale2_def dot_scale_left o_def)

lemma column_scale:
  assumes "wf2 B" "j < shape1 B"
  shows "map (\<lambda>s. s ! j) (map (map ((*) c)) (rows B)) = map ((*) c) (map (\<lambda>s. s ! j) (rows B))"
  using assms by (auto simp: wf2_def list_all_iff)

lemma matmul_scale_right:
  assumes "wf2 B"
  shows "matmul A (scale2 c B) = scale2 c (matmul A B)"
proof -
  have "\<And>r j. j < shape1 B \<Longrightarrow>
      sum_list (map2 (*) r (map (\<lambda>s. s ! j) (map (map ((*) c)) (rows B))))
      = c * sum_list (map2 (*) r (map (\<lambda>s. s ! j) (rows B)))"
    by (simp only: column_scale[OF assms] dot_scale_right)
  then show ?thesis
    by (simp add: matmul_def scale2_def)
qed

lemma np_T_scale:
  assumes "wf2 A"
  shows "np_T (scale2 c A) = scale2 c (np_T A)"
  using assms by (auto simp: np_T_def scale2_def wf2_def list_all_iff)

lemma scale2_scale2: "scale2 c (scale2 d A) = scale2 (c * d) A"
  by (simp add: scale2_def o_def mult.assoc)

lemma scale2_one: "scale2 1 A = A"
  by (simp add: scale2_def ndarray2.expand)

lemma wf2_scale2: "wf2 A \<Longrightarrow> wf2 (scale2 c A)"
  by (simp add: wf2_def scale2_def list_all_iff)

lemma is_pinv_scale:
  assumes A: "wf2 A" and G: "is_pinv A G" and c: "c \<noteq> 0"
  shows "is_pinv (scale2 c A) (scale2 (inverse c) G)"
proof -
  from G have wG: "wf2 G" and s0: "shape0 G = shape1 A" and s1: "shape1 G = shape0 A"
    and e1: "matmul (matmul A G) A = A" and e2: "matmul (matmul G A) G = G"
    and e3: "np_T (matmul A G) = matmul A G" and e4: "np_T (matmul G A) = matmul G A"
    by (simp_all add: is_pinv_def pinv_shape_def)
  have AG: "matmul (scale2 c A) (scale2 (inverse c) G) = matmul A G"
    using c by (simp add: matmul_scale_left matmul_scale_right[OF wG] scale2_scale2 scale2_one)
  have GA: "matmul (scale2 (inverse c) G) (scale2 c A) = matmul G A"
    using c by (simp add: matmul_scale_left matmul_scale_right[OF A] scale2_scale2 scale2_one)
  have 1: "matmul (matmul (scale2 c A) (scale2 (inverse c) G)) (scale2 c A) = scale2 c A"
    by (simp add: AG matmul_scale_right[OF A] e1)
  have 2: "matmul (matmul (scale2 (inverse c) G) (scale2 c A)) (scale2 (inverse c) G) = scale2 (inverse c) G"
    by (simp add: GA matmul_scale_right[OF wG] e2)
  show ?thesis
    unfolding is_pinv_def pinv_shape_def
    using wG s0 s1 1 2 by (simp add: AG GA e3 e4 wf2_scale2) (simp add: scale2_def)
qed

lemma pinv_scale:
  assumes A: "wf2 A" and G: "is_pinv A (pinv A)" and G2: "is_pinv (scale2 c A) (pinv (scale2 c A))"
    and c: "c \<noteq> 0"
  shows "pinv (scale2 c A) = scale2 (inverse c) (pinv A)"
  by (rule is_pinv_unique[OF wf2_scale2[OF A] G2 is_pinv_scale[OF A G c]])

lemma pinv_shape_diag: "wf2 A \<Longrightarrow> pinv_shape A (pinv_diag A)"
  by (simp add: pinv_shape_def pinv_diag_def wf2_def list_all_iff)

subsection \<open>Duplicated examples\<close>

lemma spec_pTy_entries_len: "length (spec_pTy es ps e0 n m) = m"
  by (simp add: spec_pTy_def)

lemma sum_split: "(\<Sum>j<n + k. g j) = (\<Sum>j<n. g j) + (\<Sum>j<(k::nat). g (n + j) :: real)"
proof (induction k)
  case 0
  show ?case by simp
next
  case (Suc k)
  have "(\<Sum>j<n + Suc k. g j) = (\<Sum>j<n + k. g j) + g (n + k)" by simp
  also have "\<dots> = (\<Sum>j<n. g j) + ((\<Sum>j<k. g (n + j)) + g (n + k))"
    by (simp only: Suc.IH add.assoc)
  finally show ?case by simp
qed

lemma sum_dup:
  assumes "length p = n" "length q = n"
  shows "(\<Sum>j<2 * n. f ((p @ p) ! j) ((q @ q) ! j)) = 2 * (\<Sum>j<n. f (p ! j) (q ! j) :: real)"
proof -
  have "(\<Sum>j<n + n. f ((p @ p) ! j) ((q @ q) ! j))
        = (\<Sum>j<n. f ((p @ p) ! j) ((q @ q) ! j)) + (\<Sum>j<n. f ((p @ p) ! (n + j)) ((q @ q) ! (n + j)))"
    by (rule sum_split)
  also have "\<dots> = (\<Sum>j<n. f (p ! j) (q ! j)) + (\<Sum>j<n. f (p ! j) (q ! j))"
    using assms by (simp add: nth_append)
  finally show ?thesis by (simp only: mult_2)
qed

lemma valid_dup:
  assumes "valid_input es ps n m"
  shows "valid_input es (map (\<lambda>p. p @ p) ps) (2 * n) m"
  using assms by (auto simp: valid_input_def list_all_iff)

lemma spec_A_dup:
  assumes "valid_input es ps n m"
  shows "spec_A (map (\<lambda>p. p @ p) ps) l (2 * n) m = scale2 2 (spec_A ps l n m)"
proof -
  have len: "\<And>a. a < m \<Longrightarrow> length (ps ! a) = n" and lps: "length ps = m"
    using assms by (auto simp: valid_input_def list_all_length)
  have "\<And>a b. a < m \<Longrightarrow> b < m \<Longrightarrow>
      (\<Sum>j<2 * n. (ps ! a @ ps ! a) ! j * (ps ! b @ ps ! b) ! j) = 2 * (\<Sum>j<n. ps ! a ! j * ps ! b ! j)"
    by (rule sum_dup) (simp_all add: len)
  then show ?thesis
    using lps by (simp add: spec_A_entries scale2_def algebra_simps)
qed

lemma spec_pTy_dup:
  assumes "valid_input es ps n m"
  shows "spec_pTy es (map (\<lambda>p. p @ p) ps) e0 (2 * n) m = map ((*) 2) (spec_pTy es ps e0 n m)"
proof -
  have len: "\<And>a. a < m \<Longrightarrow> length (ps ! a) = n" and lps: "length ps = m"
    using assms by (auto simp: valid_input_def list_all_length)
  have "(\<Sum>j<2 * n. ((ps ! a @ ps ! a) ! j)\<^sup>2) = 2 * (\<Sum>j<n. (ps ! a ! j)\<^sup>2)"
    if "a < m" for a
    using sum_dup[where f = "\<lambda>x y. x\<^sup>2", OF len[OF that] len[OF that]] .
  then show ?thesis
    using lps by (simp add: spec_pTy_def algebra_simps)
qed

lemma at2_scale2:
  assumes "wf2 G" "a < shape0 G" "b < shape1 G"
  shows "at2 (scale2 c G) a b = c * at2 G a b"
  using assms by (auto simp: at2_def scale2_def wf2_def list_all_length)

lemma spec_blend_dup:
  assumes "valid_input es ps n m"
  shows "spec_blend (map (\<lambda>p. p @ p) ps) w (2 * n) m = spec_blend ps w n m @ spec_blend ps w n m"
proof (rule nth_equalityI)
  show "length (spec_blend (map (\<lambda>p. p @ p) ps) w (2 * n) m)
          = length (spec_blend ps w n m @ spec_blend ps w n m)"
    by (simp add: spec_blend_entries)
next
  fix j assume "j < length (spec_blend (map (\<lambda>p. p @ p) ps) w (2 * n) m)"
  then have j: "j < 2 * n" by (simp add: spec_blend_entries)
  have len: "\<And>a. a < m \<Longrightarrow> length (ps ! a) = n" and lps: "length ps = m"
    using assms by (auto simp: valid_input_def list_all_length)
  show "spec_blend (map (\<lambda>p. p @ p) ps) w (2 * n) m ! j = (spec_blend ps w n m @ spec_blend ps w n m) ! j"
  proof (cases "j < n")
    case True
    then show ?thesis
      using j lps len by (simp add: spec_blend_entries nth_append)
  next
    case False
    then have "j - n < n" using j by simp
    then show ?thesis
      using False j lps len by (simp add: spec_blend_entries nth_append)
  qed
qed

text \<open>
  C6. For a valid input, appending to every prediction vector a copy of itself (so
  \<open>n\<close> doubles), with the scores, \<open>e0\<close> and \<open>l\<close> unchanged, gives exactly the same
  weight vector (and the blend twice over): the regularisation term is \<open>l * n\<close>, so
  the system matrix and the right-hand side both double. \<^verbatim>\<open>pinv\<close> is assumed to return
  the Moore-Penrose inverse of the two system matrices.
\<close>

theorem netflix_duplication_invariant:
  assumes v: "valid_input es ps n m"
    and p1: "is_pinv (spec_A ps l n m) (pinv (spec_A ps l n m))"
    and p2: "is_pinv (spec_A (map (\<lambda>p. p @ p) ps) l (2 * n) m)
                     (pinv (spec_A (map (\<lambda>p. p @ p) ps) l (2 * n) m))"
  shows "\<exists>b w. netflix pinv es ps e0 l = Inr (b, w) \<and>
               netflix pinv es (map (\<lambda>p. p @ p) ps) e0 l = Inr (b @ b, w)"
proof -
  let ?A = "spec_A ps l n m" and ?ps2 = "map (\<lambda>p. p @ p) ps"
  let ?w = "spec_w pinv es ps e0 l n m"
  have r1: "netflix pinv es ps e0 l = Inr (spec_blend ps ?w n m, ?w)"
    by (rule netflix_valid[where pinv = pinv, OF v is_pinv_shape[OF p1]])
  have r2: "netflix pinv es ?ps2 e0 l
          = Inr (spec_blend ?ps2 (spec_w pinv es ?ps2 e0 l (2 * n) m) (2 * n) m,
                 spec_w pinv es ?ps2 e0 l (2 * n) m)"
    by (rule netflix_valid[where pinv = pinv, OF valid_dup[OF v] is_pinv_shape[OF p2]])
  have A2: "spec_A ?ps2 l (2 * n) m = scale2 2 ?A" by (rule spec_A_dup[OF v])
  have G2: "pinv (scale2 2 ?A) = scale2 (inverse 2) (pinv ?A)"
    using pinv_scale[where pinv = pinv and A = ?A and c = 2] p1 p2 by (simp add: A2 wf2_spec_A)
  have wG: "wf2 (pinv ?A)" and s0: "shape0 (pinv ?A) = m" and s1: "shape1 (pinv ?A) = m"
    using p1 by (simp_all add: is_pinv_def pinv_shape_def spec_A_def)
  have w: "spec_w pinv es ?ps2 e0 l (2 * n) m = ?w"
    unfolding spec_w_def A2 G2 spec_pTy_dup[OF v]
    using wG s0 s1 by (simp add: at2_scale2 spec_pTy_entries_len)
  show ?thesis
    using r1 r2 by (simp add: w spec_blend_dup[OF v])
qed

theorem netflix_duplication_invariant_witness:
  "valid_input [1, 1/2] [[1, 0], [0, 2]] 2 2 \<and>
   is_pinv (spec_A [[1, 0], [0, 2]] (1/10000) 2 2) (pinv_diag (spec_A [[1, 0], [0, 2]] (1/10000) 2 2)) \<and>
   is_pinv (spec_A [[1, 0, 1, 0], [0, 2, 0, 2]] (1/10000) 4 2)
           (pinv_diag (spec_A [[1, 0, 1, 0], [0, 2, 0, 2]] (1/10000) 4 2)) \<and>
   (\<exists>b w. netflix pinv_diag [1, 1/2] [[1, 0], [0, 2]] 1 (1/10000) = Inr (b, w) \<and>
          netflix pinv_diag [1, 1/2] [[1, 0, 1, 0], [0, 2, 0, 2]] 1 (1/10000) = Inr (b @ b, w))"
proof -
  have v: "valid_input [1, 1/2] [[1, 0], [0, 2]] 2 2"
    by (simp add: valid_input_def)
  have p1: "is_pinv (spec_A [[1, 0], [0, 2]] (1/10000) 2 2) (pinv_diag (spec_A [[1, 0], [0, 2]] (1/10000) 2 2))"
    by (simp add: spec_A_entries is_pinv_def pinv_shape_def pinv_diag_def wf2_def matmul_def np_T_def at2_def
        eval_nat_numeral lessThan_Suc)
  have p2: "is_pinv (spec_A [[1, 0, 1, 0], [0, 2, 0, 2]] (1/10000) 4 2)
                    (pinv_diag (spec_A [[1, 0, 1, 0], [0, 2, 0, 2]] (1/10000) 4 2))"
    by (simp add: spec_A_entries is_pinv_def pinv_shape_def pinv_diag_def wf2_def matmul_def np_T_def at2_def
        eval_nat_numeral lessThan_Suc)
  show ?thesis
    using netflix_duplication_invariant[of "[1, 1/2]" "[[1, 0], [0, 2]]" 2 2 "1/10000" pinv_diag 1] v p1 p2
    by simp
qed

subsection \<open>Permuted examples\<close>

lemma perm_sum:
  assumes "mset \<pi> = mset [0..<n]"
  shows "(\<Sum>j<n. f (\<pi> ! j)) = (\<Sum>j<n. f j :: real)"
proof -
  have len: "length \<pi> = n"
    using assms by (metis length_upt mset_eq_length minus_nat.diff_0)
  have "(\<Sum>j<n. f (\<pi> ! j)) = sum_list (map f \<pi>)"
    using len by (simp add: sum_list_sum_nth atLeast0LessThan)
  also have "\<dots> = sum_mset (image_mset f (mset \<pi>))"
    by (simp add: sum_mset_sum_list[symmetric])
  also have "\<dots> = sum_list (map f [0..<n])"
    by (simp add: assms sum_mset_sum_list[symmetric])
  also have "\<dots> = (\<Sum>j<n. f j)"
    by (simp add: sum_list_sum_nth atLeast0LessThan)
  finally show ?thesis .
qed

lemma perm_bounds:
  assumes "mset \<pi> = mset [0..<n]"
  shows "length \<pi> = n" and "\<And>j. j < n \<Longrightarrow> \<pi> ! j < n"
proof -
  show len: "length \<pi> = n"
    using assms by (metis length_upt mset_eq_length minus_nat.diff_0)
  fix j assume "j < n"
  then have "\<pi> ! j \<in> set \<pi>" using len by simp
  also have "set \<pi> = {0..<n}" using assms by (metis mset_eq_setD set_upt)
  finally show "\<pi> ! j < n" by simp
qed

lemma valid_perm:
  assumes "valid_input es ps n m" "mset \<pi> = mset [0..<n]"
  shows "valid_input es (map (\<lambda>p. map (\<lambda>i. p ! i) \<pi>) ps) n m"
  using assms perm_bounds(1)[OF assms(2)]
  by (auto simp: valid_input_def list_all_iff)

lemma spec_A_perm:
  assumes v: "valid_input es ps n m" and p: "mset \<pi> = mset [0..<n]"
  shows "spec_A (map (\<lambda>p. map (\<lambda>i. p ! i) \<pi>) ps) l n m = spec_A ps l n m"
proof -
  have lps: "length ps = m" using v by (simp add: valid_input_def)
  have "(\<Sum>j<n. map (\<lambda>i. ps ! a ! i) \<pi> ! j * map (\<lambda>i. ps ! b ! i) \<pi> ! j) = (\<Sum>j<n. ps ! a ! j * ps ! b ! j)"
    for a b
  proof -
    have "(\<Sum>j<n. map (\<lambda>i. ps ! a ! i) \<pi> ! j * map (\<lambda>i. ps ! b ! i) \<pi> ! j)
          = (\<Sum>j<n. ps ! a ! (\<pi> ! j) * ps ! b ! (\<pi> ! j))"
      using perm_bounds(1)[OF p] by simp
    also have "\<dots> = (\<Sum>j<n. ps ! a ! j * ps ! b ! j)"
      by (rule perm_sum[OF p, of "\<lambda>i. ps ! a ! i * ps ! b ! i"])
    finally show ?thesis .
  qed
  then show ?thesis
    using lps by (simp add: spec_A_entries)
qed

lemma spec_pTy_perm:
  assumes v: "valid_input es ps n m" and p: "mset \<pi> = mset [0..<n]"
  shows "spec_pTy es (map (\<lambda>p. map (\<lambda>i. p ! i) \<pi>) ps) e0 n m = spec_pTy es ps e0 n m"
proof -
  have lps: "length ps = m" using v by (simp add: valid_input_def)
  have "(\<Sum>j<n. (map (\<lambda>i. ps ! a ! i) \<pi> ! j)\<^sup>2) = (\<Sum>j<n. (ps ! a ! j)\<^sup>2)" for a
  proof -
    have "(\<Sum>j<n. (map (\<lambda>i. ps ! a ! i) \<pi> ! j)\<^sup>2) = (\<Sum>j<n. (ps ! a ! (\<pi> ! j))\<^sup>2)"
      using perm_bounds(1)[OF p] by simp
    also have "\<dots> = (\<Sum>j<n. (ps ! a ! j)\<^sup>2)"
      by (rule perm_sum[OF p, of "\<lambda>i. (ps ! a ! i)\<^sup>2"])
    finally show ?thesis .
  qed
  then show ?thesis
    using lps by (simp add: spec_pTy_def)
qed

lemma spec_blend_perm:
  assumes v: "valid_input es ps n m" and p: "mset \<pi> = mset [0..<n]"
  shows "spec_blend (map (\<lambda>p. map (\<lambda>i. p ! i) \<pi>) ps) w n m = map (\<lambda>i. spec_blend ps w n m ! i) \<pi>"
proof -
  have lps: "length ps = m" using v by (simp add: valid_input_def)
  show ?thesis
    using lps perm_bounds[OF p]
    by (auto simp: spec_blend_entries intro!: nth_equalityI)
qed

text \<open>
  C10. For a valid input and a permutation \<open>\<pi>\<close> of the example indices
  \<open>0, ..., n - 1\<close> applied to all \<open>m\<close> prediction vectors at once (scores, \<open>e0\<close> and
  \<open>l\<close> unchanged), the weight vector is unchanged and the blend is the original blend
  permuted by \<open>\<pi>\<close>.
\<close>

theorem netflix_permutation_invariant:
  assumes v: "valid_input es ps n m"
    and s: "pinv_shape (spec_A ps l n m) (pinv (spec_A ps l n m))"
    and p: "mset \<pi> = mset [0..<n]"
  shows "\<exists>b w. netflix pinv es ps e0 l = Inr (b, w) \<and>
               netflix pinv es (map (\<lambda>p. map (\<lambda>i. p ! i) \<pi>) ps) e0 l = Inr (map (\<lambda>i. b ! i) \<pi>, w)"
proof -
  let ?ps' = "map (\<lambda>p. map (\<lambda>i. p ! i) \<pi>) ps"
  let ?w = "spec_w pinv es ps e0 l n m"
  have A: "spec_A ?ps' l n m = spec_A ps l n m" by (rule spec_A_perm[OF v p])
  have w: "spec_w pinv es ?ps' e0 l n m = ?w"
    by (simp add: spec_w_def A spec_pTy_perm[OF v p])
  have r1: "netflix pinv es ps e0 l = Inr (spec_blend ps ?w n m, ?w)"
    by (rule netflix_valid[where pinv = pinv, OF v s])
  have "netflix pinv es ?ps' e0 l
          = Inr (spec_blend ?ps' (spec_w pinv es ?ps' e0 l n m) n m, spec_w pinv es ?ps' e0 l n m)"
    using s by (intro netflix_valid[where pinv = pinv] valid_perm[OF v p]) (simp add: A)
  then have r2: "netflix pinv es ?ps' e0 l = Inr (map (\<lambda>i. spec_blend ps ?w n m ! i) \<pi>, ?w)"
    by (simp add: w spec_blend_perm[OF v p])
  show ?thesis
    using r1 r2 by blast
qed

theorem netflix_permutation_invariant_witness:
  "valid_input [1, 1/2] [[1, 0, 3], [0, 2, 0]] 3 2 \<and>
   pinv_shape (spec_A [[1, 0, 3], [0, 2, 0]] (1/10000) 3 2) (pinv_diag (spec_A [[1, 0, 3], [0, 2, 0]] (1/10000) 3 2)) \<and>
   mset [2, 0, 1] = mset [0..<3] \<and>
   (\<exists>b w. netflix pinv_diag [1, 1/2] [[1, 0, 3], [0, 2, 0]] 1 (1/10000) = Inr (b, w) \<and>
          netflix pinv_diag [1, 1/2] [[3, 1, 0], [0, 0, 2]] 1 (1/10000) = Inr ([b ! 2, b ! 0, b ! 1], w))"
proof -
  have v: "valid_input [1, 1/2] [[1, 0, 3], [0, 2, 0]] 3 2"
    by (simp add: valid_input_def)
  have s: "pinv_shape (spec_A [[1, 0, 3], [0, 2, 0]] (1/10000) 3 2)
             (pinv_diag (spec_A [[1, 0, 3], [0, 2, 0]] (1/10000) 3 2))"
    by (rule pinv_shape_diag[OF wf2_spec_A])
  have p: "mset [2, 0, 1] = mset [0..<3]"
    by (simp add: eval_nat_numeral)
  show ?thesis
    using netflix_permutation_invariant[of "[1, 1/2]" "[[1, 0, 3], [0, 2, 0]]" 3 2 "1/10000" pinv_diag "[2, 0, 1]" 1]
      v s p
    by simp
qed

subsection \<open>Inputs that are not valid\<close>

lemma netflix_ragged:
  assumes "ps \<noteq> []" "\<not> list_all (\<lambda>p. length p = length (hd ps)) ps"
  shows "netflix pinv es ps e0 l = Inl ValueError"
proof -
  from assms(1) obtain p0 rest where ps: "ps = p0 # rest" by (cases ps) auto
  have "np_stack ps = Inl ValueError"
    using assms(2) by (simp add: np_stack_def ps)
  then show ?thesis
    using assms(1) by (simp add: netflix_def)
qed

lemma netflix_no_models: "netflix pinv es [] e0 l = Inl IndexError"
  by (simp add: netflix_def)

lemma netflix_empty_vectors:
  assumes ne: "ps \<noteq> []" and e: "list_all (\<lambda>p. p = []) ps" and les: "length es = length ps"
    and p: "pinv_shape (spec_A ps l 0 (length ps)) (pinv (spec_A ps l 0 (length ps)))"
  shows "netflix pinv es ps e0 l = Inr ([], replicate (length ps) 0)"
proof -
  have all: "list_all (\<lambda>p. length p = 0) ps"
    using e by (simp add: list_all_iff)
  have m: "1 \<le> length ps" using ne by (cases ps) auto
  have w: "spec_w pinv es ps e0 l 0 (length ps) = replicate (length ps) 0"
    by (auto simp: spec_w_def spec_pTy_def intro!: nth_equalityI)
  have "netflix pinv es ps e0 l =
          Inr (spec_blend ps (spec_w pinv es ps e0 l 0 (length ps)) 0 (length ps),
               spec_w pinv es ps e0 l 0 (length ps))"
    by (rule netflix_aligned[where pinv = pinv, OF les refl m all p])
  then show ?thesis
    by (simp add: w spec_blend_entries)
qed

text \<open>
  C4 (as the code has it). \<^verbatim>\<open>netflix\<close> has no validation of its own and raises
  neither \<^verbatim>\<open>ShapeMismatchError\<close> nor \<^verbatim>\<open>EmptyInputError\<close>. When the prediction vectors
  do not all have the same length, \<^verbatim>\<open>np.stack\<close> raises \<^verbatim>\<open>ValueError\<close> before any matrix
  algebra; with zero models, \<^verbatim>\<open>ps[0]\<close> raises \<^verbatim>\<open>IndexError\<close>; no partial result is
  produced in either case. Zero-length prediction vectors are not rejected: with as
  many scores as vectors the call returns the empty blend and an all-zero weight vector.
\<close>

theorem netflix_no_validation:
  "(ps \<noteq> [] \<and> \<not> list_all (\<lambda>p. length p = length (hd ps)) ps
      \<longrightarrow> netflix pinv es ps e0 l = Inl ValueError) \<and>
   netflix pinv es [] e0 l = Inl IndexError \<and>
   (ps \<noteq> [] \<and> list_all (\<lambda>p. p = []) ps \<and> length es = length ps \<and>
    pinv_shape (spec_A ps l 0 (length ps)) (pinv (spec_A ps l 0 (length ps)))
      \<longrightarrow> netflix pinv es ps e0 l = Inr ([], replicate (length ps) 0))"
  using netflix_ragged[of ps pinv es e0 l] netflix_no_models[of pinv es e0 l]
    netflix_empty_vectors[of ps es l pinv e0]
  by blast

theorem netflix_no_validation_witness:
  "netflix pinv_diag [1, 2] [[1, 2], [3]] 1 (1/10000) = Inl ValueError \<and>
   netflix pinv_diag [] [] 1 (1/10000) = Inl IndexError \<and>
   pinv_shape (spec_A [[]] (1/10000) 0 1) (pinv_diag (spec_A [[]] (1/10000) 0 1)) \<and>
   netflix pinv_diag [1] [[]] 1 (1/10000) = Inr ([], [0])"
proof -
  have s: "pinv_shape (spec_A [[]] (1/10000) 0 1) (pinv_diag (spec_A [[]] (1/10000) 0 1))"
    by (rule pinv_shape_diag[OF wf2_spec_A])
  have a: "netflix pinv_diag [1, 2] [[1, 2], [3]] 1 (1/10000) = Inl ValueError"
    using netflix_no_validation[of "[[1, 2], [3]]" pinv_diag "[1, 2]" 1 "1/10000"] by simp
  have b: "netflix pinv_diag [] [] 1 (1/10000) = Inl IndexError"
    using netflix_no_validation[of "[]" pinv_diag "[]" 1 "1/10000"] by simp
  have c: "netflix pinv_diag [1] [[]] 1 (1/10000) = Inr ([], [0])"
    using netflix_no_validation[of "[[]]" pinv_diag "[1]" 1 "1/10000"] s by simp
  show ?thesis using a b c s by simp
qed

text \<open>
  The claim C4 as stated fails: one model with a zero-length prediction vector is
  accepted and a result is returned.
\<close>

theorem netflix_accepts_empty_vectors:
  "netflix pinv_diag [1] [[]] 1 (1/10000) = Inr ([], [0])"
  by (simp add: netflix_def np_stack_def np_T_def broadcast1_def sum_axis0_def np_square_def
      dot22_def matmul_def np_add2_def broadcast_dim_def scale2_def np_eye_def dot21_def
      pinv_diag_def at2_def)

subsection \<open>One model\<close>

lemma is_pinv_1x1: "is_pinv (Array2 1 1 [[a]]) (pinv_diag (Array2 1 1 [[a]]))"
  by (cases "a = 0") (simp_all add: is_pinv_def pinv_shape_def pinv_diag_def wf2_def matmul_def np_T_def at2_def)

lemma pinv_1x1:
  assumes "is_pinv (Array2 1 1 [[a]]) (pinv (Array2 1 1 [[a]]))"
  shows "pinv (Array2 1 1 [[a]]) = Array2 1 1 [[inverse a]]"
proof -
  have "wf2 (Array2 1 1 [[a]])" by (simp add: wf2_def)
  then have "pinv (Array2 1 1 [[a]]) = pinv_diag (Array2 1 1 [[a]])"
    using assms is_pinv_1x1 by (rule is_pinv_unique)
  then show ?thesis by (simp add: pinv_diag_def at2_def)
qed

lemma spec_A_single:
  "spec_A [p] l n 1 = Array2 1 1 [[(\<Sum>j<n. (p ! j)\<^sup>2) + l * real n]]"
  by (simp add: spec_A_entries power2_eq_square)

lemma netflix_single:
  assumes pc: "is_pinv (spec_A [p] l (length p) 1) (pinv (spec_A [p] l (length p) 1))"
  shows "netflix pinv [e] [p] e l =
           Inr (map (\<lambda>x. x * (inverse ((\<Sum>x\<leftarrow>p. x\<^sup>2) + l * real (length p)) * ((\<Sum>x\<leftarrow>p. x\<^sup>2) / 2))) p,
                [inverse ((\<Sum>x\<leftarrow>p. x\<^sup>2) + l * real (length p)) * ((\<Sum>x\<leftarrow>p. x\<^sup>2) / 2)])"
proof -
  let ?n = "length p"
  have S: "(\<Sum>j<?n. (p ! j)\<^sup>2) = (\<Sum>x\<leftarrow>p. x\<^sup>2)"
    by (simp add: sum_list_sum_nth atLeast0LessThan)
  have pc': "is_pinv (Array2 1 1 [[(\<Sum>x\<leftarrow>p. x\<^sup>2) + l * real ?n]])
                    (pinv (Array2 1 1 [[(\<Sum>x\<leftarrow>p. x\<^sup>2) + l * real ?n]]))"
    using pc unfolding spec_A_single S .
  have G: "pinv (spec_A [p] l ?n 1) = Array2 1 1 [[inverse ((\<Sum>x\<leftarrow>p. x\<^sup>2) + l * real ?n)]]"
    unfolding spec_A_single S by (rule pinv_1x1[where pinv = pinv, OF pc'])
  have w: "spec_w pinv [e] [p] e l ?n 1
             = [inverse ((\<Sum>x\<leftarrow>p. x\<^sup>2) + l * real ?n) * ((\<Sum>x\<leftarrow>p. x\<^sup>2) / 2)]"
    using G by (simp add: spec_w_def spec_pTy_def at2_def S)
  have b: "spec_blend [p] [c] ?n 1 = map (\<lambda>x. x * c) p" for c
    by (auto simp: spec_blend_entries intro!: nth_equalityI)
  have "netflix pinv [e] [p] e l =
          Inr (spec_blend [p] (spec_w pinv [e] [p] e l ?n 1) ?n 1, spec_w pinv [e] [p] e l ?n 1)"
    using is_pinv_shape[OF pc] by (intro netflix_aligned[where pinv = pinv]) simp_all
  then show ?thesis
    by (simp only: w b)
qed

lemma half_limit:
  assumes "S \<noteq> (0::real)"
  shows "((\<lambda>l. inverse (S + l * c) * (S / 2)) \<longlongrightarrow> 1 / 2) (at 0)"
proof -
  have "((\<lambda>l. inverse (S + l * c) * (S / 2)) \<longlongrightarrow> inverse (S + 0 * c) * (S / 2)) (at 0)"
    using assms by (intro tendsto_intros) simp_all
  then show ?thesis using assms by simp
qed

text \<open>
  C7 (as the code has it). For one model with prediction vector \<open>p\<close> of non-zero sum
  of squares, whose score equals the baseline score \<open>e0\<close>: as \<open>l\<close> tends to 0 the
  weight converges to \<open>1/2\<close> (not 1), and every entry of the blend converges to half
  the entry of \<open>p\<close>. With equal scores the cross term is \<open>0.5 * sum of squares of p\<close>.
\<close>

theorem netflix_single_model_limit:
  assumes nz: "(\<Sum>x\<leftarrow>p. x\<^sup>2) \<noteq> 0"
    and pc: "\<forall>l. is_pinv (spec_A [p] l (length p) 1) (pinv (spec_A [p] l (length p) 1))"
  shows "((\<lambda>l. hd (weights_of (netflix pinv [e] [p] e l))) \<longlongrightarrow> 1 / 2) (at 0) \<and>
         (\<forall>j<length p. ((\<lambda>l. blend_of (netflix pinv [e] [p] e l) ! j) \<longlongrightarrow> p ! j / 2) (at 0))"
proof -
  let ?S = "\<Sum>x\<leftarrow>p. x\<^sup>2"
  let ?w = "\<lambda>l. inverse (?S + l * real (length p)) * (?S / 2)"
  have r: "netflix pinv [e] [p] e l = Inr (map (\<lambda>x. x * ?w l) p, [?w l])" for l
    using pc by (intro netflix_single) simp
  have lim: "(?w \<longlongrightarrow> 1 / 2) (at 0)"
    by (rule half_limit[OF nz])
  have 1: "((\<lambda>l. hd (weights_of (netflix pinv [e] [p] e l))) \<longlongrightarrow> 1 / 2) (at 0)"
    using lim by (simp add: r weights_of_def)
  have 2: "((\<lambda>l. blend_of (netflix pinv [e] [p] e l) ! j) \<longlongrightarrow> p ! j / 2) (at 0)"
    if "j < length p" for j
  proof -
    have "((\<lambda>l. p ! j * ?w l) \<longlongrightarrow> p ! j * (1 / 2)) (at 0)"
      by (rule tendsto_mult_left[OF lim])
    then show ?thesis
      using that by (simp add: r blend_of_def)
  qed
  show ?thesis using 1 2 by simp
qed

lemma is_pinv_single_diag: "is_pinv (spec_A [p] l n 1) (pinv_diag (spec_A [p] l n 1))"
  unfolding spec_A_single by (rule is_pinv_1x1)

theorem netflix_single_model_limit_witness:
  "(\<Sum>x\<leftarrow>[1, 2::real]. x\<^sup>2) \<noteq> 0 \<and>
   ((\<lambda>l. hd (weights_of (netflix pinv_diag [3] [[1, 2]] 3 l))) \<longlongrightarrow> 1 / 2) (at 0) \<and>
   ((\<lambda>l. blend_of (netflix pinv_diag [3] [[1, 2]] 3 l) ! 0) \<longlongrightarrow> 1 / 2) (at 0) \<and>
   ((\<lambda>l. blend_of (netflix pinv_diag [3] [[1, 2]] 3 l) ! 1) \<longlongrightarrow> 1) (at 0)"
proof -
  have nz: "(\<Sum>x\<leftarrow>[1, 2::real]. x\<^sup>2) \<noteq> 0" by simp
  have pc: "\<forall>l. is_pinv (spec_A [[1, 2]] l (length [1, 2::real]) 1)
                        (pinv_diag (spec_A [[1, 2]] l (length [1, 2::real]) 1))"
    by (simp only: is_pinv_single_diag simp_thms)
  show ?thesis
    using netflix_single_model_limit[OF nz pc, of 3] nz
    by (simp add: eval_nat_numeral All_less_Suc)
qed

text \<open>
  The claim C7 as stated fails: for \<open>p = [1]\<close> and both scores 1 the weight is
  \<open>1 / (2 * (1 + l))\<close>, which does not converge to 1 as \<open>l\<close> tends to 0 from above.
\<close>

theorem netflix_single_model_weight_not_one:
  "\<not> ((\<lambda>l. hd (weights_of (netflix pinv_diag [1] [[1]] 1 l))) \<longlongrightarrow> 1) (at_right 0)"
proof
  assume one: "((\<lambda>l. hd (weights_of (netflix pinv_diag [1] [[1]] 1 l))) \<longlongrightarrow> 1) (at_right 0)"
  have r: "netflix pinv_diag [1] [[1]] 1 l = Inr ([inverse (1 + l) * (1 / 2)], [inverse (1 + l) * (1 / 2)])" for l
    using netflix_single[of "[1]" l pinv_diag 1] is_pinv_single_diag[of "[1]" l 1] by simp
  have "((\<lambda>l. inverse (1 + l * 1) * (1 / 2)) \<longlongrightarrow> 1 / 2) (at (0::real))"
    by (rule half_limit) simp
  then have "((\<lambda>l. hd (weights_of (netflix pinv_diag [1] [[1]] 1 l))) \<longlongrightarrow> 1 / 2) (at 0)"
    by (simp add: r weights_of_def)
  then have half: "((\<lambda>l. hd (weights_of (netflix pinv_diag [1] [[1]] 1 l))) \<longlongrightarrow> 1 / 2) (at_right 0)"
    by (rule tendsto_mono[OF at_le, rotated]) simp
  have "(1::real) = 1 / 2"
    by (rule tendsto_unique[OF _ one half]) simp
  then show False by simp
qed

lemma netflix_pinv_unique:
  assumes v: "valid_input es ps n m"
    and p1: "is_pinv (spec_A ps l n m) (pinv (spec_A ps l n m))"
    and p2: "is_pinv (spec_A ps l n m) (pinv' (spec_A ps l n m))"
  shows "netflix pinv es ps e0 l = netflix pinv' es ps e0 l"
proof -
  have G: "pinv (spec_A ps l n m) = pinv' (spec_A ps l n m)"
    by (rule is_pinv_unique[OF wf2_spec_A p1 p2])
  have w: "spec_w pinv es ps e0 l n m = spec_w pinv' es ps e0 l n m"
    by (simp add: spec_w_def G)
  show ?thesis
    using netflix_valid[where pinv = pinv, OF v is_pinv_shape[OF p1], of e0]
      netflix_valid[where pinv = "pinv'", OF v is_pinv_shape[OF p2], of e0]
    by (simp add: w)
qed

subsection \<open>An example with a negative weight\<close>

lemma spec_A_example: "spec_A [[1, - 1], [1, 1]] 0 2 2 = Array2 2 2 [[2, 0], [0, 2]]"
  by (simp add: spec_A_entries eval_nat_numeral lessThan_Suc)

lemma is_pinv_example:
  "is_pinv (Array2 2 2 [[2, 0], [0, 2]]) (pinv_diag (Array2 2 2 [[2, 0], [0, 2]]))"
  by (simp add: is_pinv_def pinv_shape_def pinv_diag_def wf2_def matmul_def np_T_def at2_def
      eval_nat_numeral)

lemma netflix_example:
  assumes p: "is_pinv (spec_A [[1, - 1], [1, 1]] 0 2 2) (pinv (spec_A [[1, - 1], [1, 1]] 0 2 2))"
  shows "netflix pinv [2, sqrt 2] [[1, - 1], [1, 1]] 1 0 = Inr ([- 1, 1], [- 1, 0])"
proof -
  let ?A = "spec_A [[1, - 1], [1, 1]] 0 2 2"
  have v': "valid_input [2, sqrt 2] [[1, - 1], [1, 1]] 2 2"
    by (simp add: valid_input_def)
  have "pinv ?A = pinv_diag ?A"
    using is_pinv_example unfolding spec_A_example[symmetric]
    by (rule is_pinv_unique[OF wf2_spec_A p])
  also have "\<dots> = pinv_diag (Array2 2 2 [[2, 0], [0, 2]])"
    by (simp only: spec_A_example)
  also have "\<dots> = Array2 2 2 [[1 / 2, 0], [0, 1 / 2]]"
    by (simp add: pinv_diag_def at2_def eval_nat_numeral)
  finally have G: "pinv ?A = Array2 2 2 [[1 / 2, 0], [0, 1 / 2]]" .
  have w: "spec_w pinv [2, sqrt 2] [[1, - 1], [1, 1]] 1 0 2 2 = [- 1, 0]"
    unfolding spec_w_def G by (simp add: spec_pTy_def at2_def eval_nat_numeral lessThan_Suc)
  have b: "spec_blend [[1, - 1], [1, 1]] [- 1, 0] 2 2 = [- 1, 1]"
    by (simp add: spec_blend_entries eval_nat_numeral lessThan_Suc)
  have "netflix pinv [2, sqrt 2] [[1, - 1], [1, 1]] 1 0
          = Inr (spec_blend [[1, - 1], [1, 1]] (spec_w pinv [2, sqrt 2] [[1, - 1], [1, 1]] 1 0 2 2) 2 2,
                 spec_w pinv [2, sqrt 2] [[1, - 1], [1, 1]] 1 0 2 2)"
    by (rule netflix_valid[where pinv = pinv, OF v' is_pinv_shape[OF p]])
  then show ?thesis
    by (simp add: w b)
qed

text \<open>
  C9. The weights that \<^verbatim>\<open>netflix\<close> returns are the solved weights
  \<open>pinv(X\<^sup>T X + l * n * I) @ pTy\<close> themselves, on every valid input: nothing clips,
  projects or normalises them. So they need not be non-negative or sum to 1: for the
  targets \<open>[-1, 1]\<close> (baseline score 1) and the two models \<open>[1, -1]\<close> (score 2) and
  \<open>[1, 1]\<close> (score \<open>sqrt 2\<close>), with \<open>l = 0\<close>, the weights are \<open>[-1, 0]\<close>: one is
  negative and the sum is \<open>-1\<close>. Of \<^verbatim>\<open>pinv\<close> the first part uses the shape of its result,
  the example that it returns the Moore-Penrose inverse of the example's matrix.
\<close>

theorem netflix_weights_unconstrained:
  "(valid_input es ps n m \<and> pinv_shape (spec_A ps l n m) (pinv (spec_A ps l n m)) \<longrightarrow>
      weights_of (netflix pinv es ps e0 l) = spec_w pinv es ps e0 l n m) \<and>
   (is_pinv (spec_A [[1, - 1], [1, 1]] 0 2 2) (pinv (spec_A [[1, - 1], [1, 1]] 0 2 2)) \<longrightarrow>
      valid_input [2, sqrt 2] [[1, - 1], [1, 1]] 2 2 \<and>
      netflix pinv [2, sqrt 2] [[1, - 1], [1, 1]] 1 0 = Inr ([- 1, 1], [- 1, 0]) \<and>
      list_ex (\<lambda>x. x < 0) (weights_of (netflix pinv [2, sqrt 2] [[1, - 1], [1, 1]] 1 0)) \<and>
      sum_list (weights_of (netflix pinv [2, sqrt 2] [[1, - 1], [1, 1]] 1 0)) \<noteq> 1)"
proof (intro conjI impI)
  assume a: "valid_input es ps n m \<and> pinv_shape (spec_A ps l n m) (pinv (spec_A ps l n m))"
  have "netflix pinv es ps e0 l =
          Inr (spec_blend ps (spec_w pinv es ps e0 l n m) n m, spec_w pinv es ps e0 l n m)"
    using a by (intro netflix_valid[where pinv = pinv]) simp_all
  then show "weights_of (netflix pinv es ps e0 l) = spec_w pinv es ps e0 l n m"
    by (simp add: weights_of_def)
next
  show "valid_input [2, sqrt 2] [[1, - 1], [1, 1]] 2 2"
    by (simp add: valid_input_def)
next
  assume p: "is_pinv (spec_A [[1, - 1], [1, 1]] 0 2 2) (pinv (spec_A [[1, - 1], [1, 1]] 0 2 2))"
  note e = netflix_example[where pinv = pinv, OF p]
  show "netflix pinv [2, sqrt 2] [[1, - 1], [1, 1]] 1 0 = Inr ([- 1, 1], [- 1, 0])"
    by (rule e)
  show "list_ex (\<lambda>x. x < 0) (weights_of (netflix pinv [2, sqrt 2] [[1, - 1], [1, 1]] 1 0))"
    by (simp add: e weights_of_def)
  show "sum_list (weights_of (netflix pinv [2, sqrt 2] [[1, - 1], [1, 1]] 1 0)) \<noteq> 1"
    by (simp add: e weights_of_def)
qed

theorem netflix_weights_unconstrained_witness:
  "valid_input [1, 1/2] [[1, 0], [0, 2]] 2 2 \<and>
   pinv_shape (spec_A [[1, 0], [0, 2]] (1/10000) 2 2) (pinv_diag (spec_A [[1, 0], [0, 2]] (1/10000) 2 2)) \<and>
   is_pinv (spec_A [[1, - 1], [1, 1]] 0 2 2) (pinv_diag (spec_A [[1, - 1], [1, 1]] 0 2 2)) \<and>
   weights_of (netflix pinv_diag [1, 1/2] [[1, 0], [0, 2]] 1 (1/10000))
     = spec_w pinv_diag [1, 1/2] [[1, 0], [0, 2]] 1 (1/10000) 2 2 \<and>
   spec_w pinv_diag [1, 1/2] [[1, 0], [0, 2]] 1 (1/10000) 2 2 = [2500 / 5001, 13750 / 20001] \<and>
   netflix pinv_diag [2, sqrt 2] [[1, - 1], [1, 1]] 1 0 = Inr ([- 1, 1], [- 1, 0])"
proof -
  have v: "valid_input [1, 1/2] [[1, 0], [0, 2]] 2 2"
    by (simp add: valid_input_def)
  have s: "pinv_shape (spec_A [[1, 0], [0, 2]] (1/10000) 2 2)
             (pinv_diag (spec_A [[1, 0], [0, 2]] (1/10000) 2 2))"
    by (simp add: spec_A_entries pinv_shape_def pinv_diag_def wf2_def eval_nat_numeral)
  have p: "is_pinv (spec_A [[1, - 1], [1, 1]] 0 2 2) (pinv_diag (spec_A [[1, - 1], [1, 1]] 0 2 2))"
    using is_pinv_example by (simp only: spec_A_example)
  have w: "spec_w pinv_diag [1, 1/2] [[1, 0], [0, 2]] 1 (1/10000) 2 2 = [2500 / 5001, 13750 / 20001]"
    by (simp add: spec_A_entries spec_w_def spec_pTy_def pinv_diag_def at2_def
        eval_nat_numeral lessThan_Suc)
  show ?thesis
    using netflix_weights_unconstrained[of "[1, 1/2]" "[[1, 0], [0, 2]]" 2 2 "1/10000" pinv_diag 1]
      v s p w
    by simp
qed

section \<open>Properties of \<^verbatim>\<open>create_folds\<close>\<close>

subsection \<open>Examples\<close>

lemma num_bins_eqI:
  assumes "2 ^ n \<le> N" "N < 2 ^ (n + 1)"
  shows "num_bins N = Inr (n + 1)"
proof -
  have "\<lfloor>log (real (2::nat)) (real N)\<rfloor> = int n"
    using assms by (intro floor_log_nat_eq_if) simp_all
  then have "\<lfloor>1 + log 2 (real N)\<rfloor> = 1 + int n"
    by simp
  moreover have "N \<noteq> 0"
    using assms(1) by (cases "N = 0") simp_all
  ultimately show ?thesis
    by (simp add: num_bins_def)
qed

lemma ex_nb: "num_bins (Suc (Suc (Suc 0))) = Inr 2"
  using num_bins_eqI[of 1 3] by (simp add: eval_nat_numeral)


lemma ex_bins: "pd_cut [0, 0, 1] (Suc (Suc 0)) = Inr [Some 0, Some 0, Some 1]"
  by (simp add: pd_cut_def cut_label_def cut_edges_def linspace_def eval_nat_numeral)

lemma ex_rows: "binned_table toy_rng [(''a'', 0), (''b'', 0), (''c'', 1::real)] [0, 0, 1] (Some 1) 0
   = (Inr [((''b'', 0), Some 0), ((''c'', 1), Some 0), ((''a'', 0), Some 1)], 0)"
  by (simp add: binned_table_def with_random_state_def sample_def toy_rng_def ex_nb ex_bins
      eval_nat_numeral)

lemma ex_table3: "binned_table toy_rng [''a'', ''b'', ''c''] [0, 0, 1] (Some 1) 0
   = (Inr [(''b'', Some 0), (''c'', Some 0), (''a'', Some 1)], 0)"
  by (simp add: binned_table_def with_random_state_def sample_def toy_rng_def ex_nb ex_bins
      eval_nat_numeral)

lemma toy_seed: "RandomState toy_rng seed = nat \<bar>seed\<bar>"
  by (simp add: toy_rng_def)

lemma ex_mtf: "make_test_folds toy_rng (Suc (Suc 0)) [0, 0, Suc 0] (Suc 0) = (Inr [Some 1, Some 0, Some 0], 3)"
  by (simp add: make_test_folds_def encode_classes_def strided_def allocation_def folds_for_class_def
      mask_assign_def toy_rng_def eval_nat_numeral mod_Suc)

lemma ex_folds: "create_folds toy_rng [''a'', ''b'', ''c''] [0, 0, 1] 2 (Some 1) 0
   = (Inr [([0], [1, 2]), ([1, 2], [0])], 0)"
  by (simp add: create_folds_def ex_table3 with_random_state_def kf_split_def toy_seed ex_mtf eval_nat_numeral)

lemma ex_rows_folds:
  "create_folds toy_rng [(''a'', 0), (''b'', 0), (''c'', 1::real)] [0, 0, 1] 2 (Some 1) 0
   = (Inr [([0], [1, 2]), ([1, 2], [0])], 0)"
  by (simp add: create_folds_def ex_rows with_random_state_def kf_split_def toy_seed ex_mtf
      eval_nat_numeral)


lemma mset_rotate: "mset (rotate n xs) = mset xs"
proof -
  have "mset (drop k xs) + mset (take k xs) = mset xs" for k
    by (metis add.commute append_take_drop_id mset_append)
  then show ?thesis by (simp add: rotate_drop_take)
qed

lemma toy_rng_contract: "rng_contract toy_rng"
  by (simp add: rng_contract_def toy_rng_def mset_rotate)

subsection \<open>The generator's contract\<close>

lemma mset_upt_bounds:
  assumes "mset xs = mset [0..<n]"
  shows "length xs = n" and "list_all (\<lambda>i. i < n) xs" and "distinct xs"
proof -
  show "length xs = n"
    using assms by (metis length_upt mset_eq_length minus_nat.diff_0)
  have "set xs = {0..<n}" using assms by (metis mset_eq_setD set_upt)
  then show "list_all (\<lambda>i. i < n) xs" by (simp add: list_all_iff)
  show "distinct xs" using assms by (metis distinct_upt mset_eq_imp_distinct_iff)
qed

lemma sample_contract:
  assumes "rng_contract lib"
  shows "\<exists>idx rng'. sample lib data rng = (Inr (map (\<lambda>i. data ! i) idx), rng')
            \<and> mset idx = mset [0..<length data]"
proof -
  obtain idx rng' where p: "permutation lib rng (length data) = (idx, rng')"
    by (cases "permutation lib rng (length data)")
  have m: "mset idx = mset [0..<length data]"
    using assms p by (metis fst_conv rng_contract_def)
  show ?thesis
    using p m mset_upt_bounds(2)[OF m] by (auto simp: sample_def)
qed



subsection \<open>Every value gets a label\<close>















subsection \<open>Assignment through a mask\<close>

lemma fold_update_length:
  "length (fold (\<lambda>(p, v) a. a[p := Some v]) ps a) = length a"
  by (induction ps arbitrary: a) (simp_all add: case_prod_beta)

lemma fold_update_other:
  "j \<notin> fst ` set ps \<Longrightarrow> fold (\<lambda>(p, v) a. a[p := Some v]) ps a ! j = a ! j"
  by (induction ps arbitrary: a) (simp_all add: case_prod_beta)

lemma fold_update_hit:
  "j < length a \<Longrightarrow> j \<in> fst ` set ps \<Longrightarrow>
     \<exists>v\<in>snd ` set ps. fold (\<lambda>(p, v) a. a[p := Some v]) ps a ! j = Some v"
proof (induction ps arbitrary: a)
  case Nil
  then show ?case by simp
next
  case (Cons x ps)
  let ?a1 = "a[fst x := Some (snd x)]"
  have r: "fold (\<lambda>(p, v) a. a[p := Some v]) (x # ps) a = fold (\<lambda>(p, v) a. a[p := Some v]) ps ?a1"
    by (simp add: case_prod_beta)
  show ?case
  proof (cases "j \<in> fst ` set ps")
    case True
    have "j < length ?a1" using Cons.prems(1) by simp
    from Cons.IH[OF this True] obtain w
      where "w \<in> snd ` set ps" "fold (\<lambda>(p, v) a. a[p := Some v]) ps ?a1 ! j = Some w"
      by blast
    then show ?thesis unfolding r by auto
  next
    case False
    then have jx: "j = fst x" using Cons.prems(2) by simp
    have "fold (\<lambda>(p, v) a. a[p := Some v]) ps ?a1 ! j = ?a1 ! j"
      using False by (rule fold_update_other)
    also have "\<dots> = Some (snd x)" using jx Cons.prems(1) by simp
    finally show ?thesis unfolding r by simp
  qed
qed

lemma mask_assign_props:
  assumes "mask_assign a pos vals = Inr a'"
  shows "length a' = length a"
    and "\<And>j. j \<notin> set pos \<Longrightarrow> a' ! j = a ! j"
    and "\<And>j. j < length a \<Longrightarrow> j \<in> set pos \<Longrightarrow> \<exists>v\<in>set vals. a' ! j = Some v"
proof -
  from assms have len: "length vals = length pos"
    and a': "a' = fold (\<lambda>(p, v) a. a[p := Some v]) (zip pos vals) a"
    by (auto simp: mask_assign_def split: if_splits)
  have "map fst (zip pos vals) = pos" and "map snd (zip pos vals) = vals"
    using len by simp_all
  then have f: "fst ` set (zip pos vals) = set pos" and s: "snd ` set (zip pos vals) = set vals"
    by (metis set_map)+
  show "length a' = length a"
    unfolding a' by (rule fold_update_length)
  show "a' ! j = a ! j" if "j \<notin> set pos" for j
    unfolding a' using that f by (intro fold_update_other) simp
  show "\<exists>v\<in>set vals. a' ! j = Some v" if "j < length a" "j \<in> set pos" for j
    using fold_update_hit[of j a "zip pos vals"] that unfolding a' f s by simp
qed

lemma folds_for_class_range: "set (folds_for_class alloc k c) \<subseteq> {0..<k}"
  by (auto simp: folds_for_class_def)

lemma assign_classes_props:
  assumes sh: "\<forall>g xs. mset (fst (shuffle lib g xs)) = mset xs"
    and r: "assign_classes lib alloc k ye cs tf rng = (Inr tf', rng')"
    and len: "length tf = length ye"
  shows "length tf' = length ye
       \<and> (\<forall>j<length ye. (ye ! j \<in> set cs \<longrightarrow> (\<exists>i<k. tf' ! j = Some i))
                        \<and> (ye ! j \<notin> set cs \<longrightarrow> tf' ! j = tf ! j))"
  using r len
proof (induction cs arbitrary: tf rng)
  case Nil
  then show ?case by simp
next
  case (Cons c cs)
  obtain shuffled rng1 where s: "shuffle lib rng (folds_for_class alloc k c) = (shuffled, rng1)"
    by (cases "shuffle lib rng (folds_for_class alloc k c)")
  let ?pos = "filter (\<lambda>j. ye ! j = c) [0..<length ye]"
  from Cons.prems(1) s obtain tf1 where m: "mask_assign tf ?pos shuffled = Inr tf1"
    and rest: "assign_classes lib alloc k ye cs tf1 rng1 = (Inr tf', rng')"
    by (auto split: sum.splits)
  note mp = mask_assign_props[OF m]
  have "set shuffled = set (folds_for_class alloc k c)"
    using sh s by (metis fst_conv mset_eq_setD)
  then have vals: "\<And>v. v \<in> set shuffled \<Longrightarrow> v < k"
    using folds_for_class_range[of alloc k c] by auto
  have len1: "length tf1 = length ye" using mp(1) Cons.prems(2) by simp
  note IH = Cons.IH[OF rest len1]
  have "(ye ! j \<in> set (c # cs) \<longrightarrow> (\<exists>i<k. tf' ! j = Some i))
      \<and> (ye ! j \<notin> set (c # cs) \<longrightarrow> tf' ! j = tf ! j)" if j: "j < length ye" for j
  proof (cases "ye ! j \<in> set cs")
    case True
    then show ?thesis using IH j by simp
  next
    case False
    then have keep: "tf' ! j = tf1 ! j" using IH j by simp
    show ?thesis
    proof (cases "ye ! j = c")
      case True
      then have "j \<in> set ?pos" using j by simp
      then obtain v where "v \<in> set shuffled" "tf1 ! j = Some v"
        using mp(3)[of j] j Cons.prems(2) by auto
      then show ?thesis using keep vals True by auto
    next
      case ne: False
      then have "j \<notin> set ?pos" by simp
      then have "tf1 ! j = tf ! j" by (rule mp(2))
      then show ?thesis using keep ne False by simp
    qed
  qed
  then show ?case using IH by simp
qed

lemma index_of_less: "x \<in> set xs \<Longrightarrow> index_of xs x < length xs"
  by (induction xs) auto

lemma encode_classes_range:
  assumes "j < length y"
  shows "encode_classes y ! j < length (remdups y)"
proof -
  have "y ! j \<in> set (rev (remdups (rev y)))" using assms by simp
  then have "index_of (rev (remdups (rev y))) (y ! j) < length (rev (remdups (rev y)))"
    by (rule index_of_less)
  also have "\<dots> = length (remdups y)"
    by (simp add: length_remdups_card_conv)
  finally show ?thesis using assms by (simp add: encode_classes_def)
qed

lemma make_test_folds_props:
  assumes sh: "\<forall>g xs. mset (fst (shuffle lib g xs)) = mset xs"
    and r: "make_test_folds lib k y rng = (Inr tf, rng')"
  shows "length tf = length y" and "\<And>j. j < length y \<Longrightarrow> \<exists>i<k. tf ! j = Some i"
proof -
  let ?ye = "encode_classes y" and ?nc = "length (remdups y)"
  have ly: "length ?ye = length y" by (simp add: encode_classes_def)
  from r have a: "assign_classes lib (allocation (sort ?ye) k ?nc) k ?ye [0..<?nc]
                    (replicate (length y) None) rng = (Inr tf, rng')"
    by (auto simp: make_test_folds_def Let_def split: if_splits)
  note p = assign_classes_props[OF sh a, unfolded ly]
  show "length tf = length y" using p by simp
  fix j assume j: "j < length y"
  then have "?ye ! j \<in> set [0..<?nc]" using encode_classes_range[OF j] by simp
  then show "\<exists>i<k. tf ! j = Some i" using p j by simp
qed

subsection \<open>Coverage\<close>

lemma filter_disjoint_or:
  assumes "\<And>x. \<not> (P x \<and> Q x)"
  shows "mset (filter P xs) + mset (filter Q xs) = mset (filter (\<lambda>x. P x \<or> Q x) xs)"
  using assms by (induction xs) auto

lemma concat_filter_upto:
  "mset (concat (map (\<lambda>i. filter (\<lambda>j. f j = Some i) js) [0..<k]))
     = mset (filter (\<lambda>j. \<exists>i<k. f j = Some i) js)"
proof (induction k)
  case 0
  show ?case by simp
next
  case (Suc k)
  have "mset (filter (\<lambda>j. \<exists>i<k. f j = Some i) js) + mset (filter (\<lambda>j. f j = Some k) js)
          = mset (filter (\<lambda>j. (\<exists>i<k. f j = Some i) \<or> f j = Some k) js)"
    by (rule filter_disjoint_or) auto
  also have "\<dots> = mset (filter (\<lambda>j. \<exists>i<Suc k. f j = Some i) js)"
    by (rule arg_cong[where f = mset], rule filter_cong) (auto simp: less_Suc_eq)
  finally show ?case using Suc by simp
qed

lemma concat_filter_cover:
  assumes "\<And>j. j \<in> set js \<Longrightarrow> \<exists>i<k. f j = Some i"
  shows "mset (concat (map (\<lambda>i. filter (\<lambda>j. f j = Some i) js) [0..<k])) = mset js"
proof -
  have "filter (\<lambda>j. \<exists>i<k. f j = Some i) js = js"
    using assms by (simp add: filter_id_conv)
  then show ?thesis by (simp add: concat_filter_upto)
qed

lemma kf_split_cover:
  assumes sh: "\<forall>g xs. mset (fst (shuffle lib g xs)) = mset xs"
    and r: "kf_split lib k n y rng = (Inr splits, rng')"
  shows "length splits = k" and "list_all (partitions n) splits"
    and "mset (concat (map snd splits)) = mset [0..<n]"
proof -
  from r obtain tf where ly: "length y = n"
    and m: "make_test_folds lib k y rng = (Inr tf, rng')"
    and s: "splits = map (\<lambda>i. (filter (\<lambda>j. tf ! j \<noteq> Some i) [0..<n],
                                 filter (\<lambda>j. tf ! j = Some i) [0..<n])) [0..<k]"
    by (auto simp: kf_split_def split: if_splits sum.splits prod.splits)
  note p = make_test_folds_props[OF sh m, unfolded ly]
  show "length splits = k" by (simp add: s)
  show "list_all (partitions n) splits"
    by (auto simp: s list_all_iff partitions_def)
  have "map snd splits = map (\<lambda>i. filter (\<lambda>j. tf ! j = Some i) [0..<n]) [0..<k]"
    by (simp add: s o_def)
  then show "mset (concat (map snd splits)) = mset [0..<n]"
    using concat_filter_cover[of "[0..<n]" k "\<lambda>j. tf ! j"] p(2) by simp
qed


lemma with_random_state_cases:
  assumes "with_random_state lib random_state f g = (Inr x, g')"
  shows "\<exists>rng rng'. f rng = (Inr x, rng')"
proof (cases random_state)
  case None
  then show ?thesis using assms by (auto simp: with_random_state_def)
next
  case (Some seed)
  then have "fst (f (RandomState lib seed)) = Inr x"
    using assms by (auto simp: with_random_state_def split: if_splits)
  then have "f (RandomState lib seed) = (Inr x, snd (f (RandomState lib seed)))"
    by (metis prod.collapse)
  then show ?thesis by blast
qed

lemma binned_table_rows:
  assumes c: "rng_contract lib" and r: "binned_table lib data y random_state g = (Inr table, g')"
  shows "\<exists>idx nb. mset idx = mset [0..<length data] \<and> num_bins (length data) = Inr nb \<and>
           length y = length data \<and>
           table = zip (map (\<lambda>i. data ! i) idx) (map (cut_label (cut_edges y nb)) y)"
proof -
  from r obtain data' g1 where w: "with_random_state lib random_state (sample lib data) g = (Inr data', g1)"
    by (auto simp: binned_table_def split: sum.splits prod.splits)
  from with_random_state_cases[OF w] obtain rng rng' where "sample lib data rng = (Inr data', rng')"
    by blast
  with sample_contract[OF c, of data rng] obtain idx where d: "data' = map (\<lambda>i. data ! i) idx"
    and m: "mset idx = mset [0..<length data]"
    by auto
  have li: "length idx = length data" by (rule mset_upt_bounds(1)[OF m])
  from r w d li obtain nb bins where nb: "num_bins (length data) = Inr nb"
    and cut: "pd_cut y nb = Inr bins" and lb: "length bins = length data"
    and t: "table = zip (map (\<lambda>i. data ! i) idx) bins"
    by (auto simp: binned_table_def split: sum.splits if_splits)
  from cut have b: "bins = map (cut_label (cut_edges y nb)) y"
    by (auto simp: pd_cut_def Let_def split: if_splits)
  show ?thesis
    using m nb lb t b by auto
qed

text \<open>
  C3. Whenever \<^verbatim>\<open>create_folds\<close> returns, for \<open>N\<close> rows: \<open>n_splits = k \<ge> 2\<close>, there are
  \<open>k\<close> pairs, each pair partitions \<open>0, ..., N - 1\<close> into two disjoint index sets whose
  union is the full index set, and across the \<open>k\<close> pairs every index appears in a
  validation set exactly once. The generator is assumed to keep its contract.
\<close>

theorem create_folds_coverage:
  assumes c: "rng_contract lib"
    and r: "create_folds lib data y n_splits random_state g = (Inr splits, g')"
  shows "2 \<le> n_splits \<and> length splits = nat n_splits \<and>
         list_all (partitions (length data)) splits \<and>
         mset (concat (map snd splits)) = mset [0..<length data]"
proof -
  from r obtain table g1 where bt: "binned_table lib data y random_state g = (Inr table, g1)"
    and k: "\<not> n_splits \<le> 1"
    and w: "with_random_state lib random_state
              (kf_split lib (nat n_splits) (length table) (map (\<lambda>r. the (snd r)) table)) g1
              = (Inr splits, g')"
    by (auto simp: create_folds_def split: sum.splits prod.splits if_splits)
  from binned_table_rows[OF c bt] obtain idx nb where m: "mset idx = mset [0..<length data]"
    and ly: "length y = length data"
    and t: "table = zip (map (\<lambda>i. data ! i) idx) (map (cut_label (cut_edges y nb)) y)"
    by blast
  have lt: "length table = length data"
    using mset_upt_bounds(1)[OF m] ly by (simp add: t)
  from with_random_state_cases[OF w] obtain rng rng'
    where s: "kf_split lib (nat n_splits) (length data) (map (\<lambda>r. the (snd r)) table) rng = (Inr splits, rng')"
    unfolding lt by blast
  have sh: "\<forall>g xs. mset (fst (shuffle lib g xs)) = mset xs"
    using c by (simp add: rng_contract_def)
  show ?thesis
    using kf_split_cover[OF sh s] k by simp
qed

theorem create_folds_coverage_witness:
  "rng_contract toy_rng \<and>
   create_folds toy_rng [''a'', ''b'', ''c''] [0, 0, 1] 2 (Some 1) 0 = (Inr [([0], [1, 2]), ([1, 2], [0])], 0) \<and>
   length [([0::nat], [1, 2::nat]), ([1, 2], [0])] = nat 2 \<and>
   list_all (partitions (length [''a'', ''b'', ''c''])) [([0], [1, 2]), ([1, 2], [0])] \<and>
   mset (concat (map snd [([0::nat], [1, 2::nat]), ([1, 2], [0])])) = mset [0..<length [''a'', ''b'', ''c'']]"
  using create_folds_coverage[OF toy_rng_contract ex_folds] toy_rng_contract ex_folds
  by simp

subsection \<open>The shuffled table\<close>

text \<open>
  C2. The number of bins is \<open>floor(1 + log2 N)\<close> (\<open>num_bins\<close>), but the label in row
  \<open>i\<close> of the shuffled table is the label of \<open>y[i]\<close>, the target at the same position
  of the unshuffled targets (\<open>binned_table_rows\<close>), not the label of the row's own
  target. Here the rows \<open>a, b\<close> (target 0, label 0) and \<open>c\<close> (target 1, label 1) are
  shuffled to \<open>b, c, a\<close>; row \<open>c\<close> is given the label 0 and row \<open>a\<close> the label 1, and
  the folds are returned.
\<close>

theorem binned_table_misaligned:
  "pd_cut [0, 0, 1] 2 = Inr [Some 0, Some 0, Some 1] \<and>
   binned_table toy_rng [(''a'', 0), (''b'', 0), (''c'', 1::real)] [0, 0, 1] (Some 1) 0
     = (Inr [((''b'', 0), Some 0), ((''c'', 1), Some 0), ((''a'', 0), Some 1)], 0) \<and>
   create_folds toy_rng [(''a'', 0), (''b'', 0), (''c'', 1::real)] [0, 0, 1] 2 (Some 1) 0
     = (Inr [([0], [1, 2]), ([1, 2], [0])], 0)"
  using ex_bins ex_rows ex_rows_folds by (simp add: eval_nat_numeral)

subsection \<open>Seeded calls\<close>

lemma with_random_state_seeded:
  "with_random_state lib (Some seed) f g = (fst (with_random_state lib (Some seed) f g0), g)"
  by (simp add: with_random_state_def)

lemma binned_table_seeded:
  "binned_table lib data y (Some seed) g = (fst (binned_table lib data y (Some seed) g0), g)"
proof -
  obtain s where s: "fst (with_random_state lib (Some seed) (sample lib data) g0) = s" by simp
  have "with_random_state lib (Some seed) (sample lib data) g = (s, g)"
    and "with_random_state lib (Some seed) (sample lib data) g0 = (s, g0)"
    using with_random_state_seeded[of lib seed "sample lib data" _ g0] s by simp_all
  then show ?thesis
    by (simp add: binned_table_def split: sum.splits)
qed

lemma create_folds_seeded:
  "create_folds lib data y n_splits (Some seed) g
     = (fst (create_folds lib data y n_splits (Some seed) g0), g)"
proof -
  obtain t where t: "fst (binned_table lib data y (Some seed) g0) = t" by simp
  have b: "binned_table lib data y (Some seed) g = (t, g)"
    and b0: "binned_table lib data y (Some seed) g0 = (t, g0)"
    using binned_table_seeded[of lib data y seed _ g0] t by simp_all
  show ?thesis
    unfolding create_folds_def b b0
    by (auto simp: with_random_state_def split: sum.splits)
qed

text \<open>
  C8. With an explicit seed the result of \<^verbatim>\<open>create_folds\<close> is the same whatever the
  state of the global generator, which is left as it was: two invocations with the
  same arguments return the same folds. \<^verbatim>\<open>netflix\<close> draws no random numbers and reads
  no state: it is a function of its arguments, and on a valid input its result is the
  same for any two implementations of \<^verbatim>\<open>pinv\<close> that return the Moore-Penrose inverse.
\<close>

theorem deterministic:
  assumes v: "valid_input es ps n m"
    and p1: "is_pinv (spec_A ps l n m) (pinv (spec_A ps l n m))"
    and p2: "is_pinv (spec_A ps l n m) (pinv' (spec_A ps l n m))"
  shows "fst (create_folds lib data y n_splits (Some seed) g)
           = fst (create_folds lib data y n_splits (Some seed) g') \<and>
         snd (create_folds lib data y n_splits (Some seed) g) = g \<and>
         netflix pinv es ps e0 l = netflix pinv' es ps e0 l"
proof -
  have "create_folds lib data y n_splits (Some seed) g
          = (fst (create_folds lib data y n_splits (Some seed) g'), g)"
    by (rule create_folds_seeded)
  moreover have "netflix pinv es ps e0 l = netflix pinv' es ps e0 l"
    using v p1 p2 by (rule netflix_pinv_unique)
  ultimately show ?thesis by simp
qed

theorem deterministic_witness:
  "valid_input [1, 1/2] [[1, 0], [0, 2]] 2 2 \<and>
   is_pinv (spec_A [[1, 0], [0, 2]] (1/10000) 2 2) (pinv_diag (spec_A [[1, 0], [0, 2]] (1/10000) 2 2)) \<and>
   is_pinv (spec_A [[1, 0], [0, 2]] (1/10000) 2 2) (pinv_diag_T (spec_A [[1, 0], [0, 2]] (1/10000) 2 2)) \<and>
   fst (create_folds toy_rng [''a'', ''b'', ''c''] [0, 0, 1] 2 (Some 1) 0)
     = fst (create_folds toy_rng [''a'', ''b'', ''c''] [0, 0, 1] 2 (Some 1) 7) \<and>
   snd (create_folds toy_rng [''a'', ''b'', ''c''] [0, 0, 1] 2 (Some 1) 0) = 0 \<and>
   netflix pinv_diag [1, 1/2] [[1, 0], [0, 2]] 1 (1/10000)
     = netflix pinv_diag_T [1, 1/2] [[1, 0], [0, 2]] 1 (1/10000)"
proof -
  have v: "valid_input [1, 1/2] [[1, 0], [0, 2]] 2 2"
    by (simp add: valid_input_def)
  have p1: "is_pinv (spec_A [[1, 0], [0, 2]] (1/10000) 2 2) (pinv_diag (spec_A [[1, 0], [0, 2]] (1/10000) 2 2))"
    by (simp add: spec_A_entries is_pinv_def pinv_shape_def pinv_diag_def wf2_def matmul_def np_T_def at2_def
        eval_nat_numeral lessThan_Suc)
  have p2: "is_pinv (spec_A [[1, 0], [0, 2]] (1/10000) 2 2) (pinv_diag_T (spec_A [[1, 0], [0, 2]] (1/10000) 2 2))"
    by (simp add: spec_A_entries is_pinv_def pinv_shape_def pinv_diag_T_def pinv_diag_def wf2_def matmul_def
        np_T_def at2_def eval_nat_numeral lessThan_Suc)
  show ?thesis
    using deterministic[where pinv = pinv_diag and pinv' = pinv_diag_T, OF v p1 p2,
        of toy_rng "[''a'', ''b'', ''c'']" "[0, 0, 1]" 2 1 0 7 1] v p1 p2
    by simp
qed

subsection \<open>Strata smaller than the number of splits\<close>












subsection \<open>When the folds are returned\<close>


















end
